theory Spec2Isabelle
  imports Complex_Main "HOL-Library.AList" "HOL-Library.Char_ord" "HOL-Library.List_Lexorder"
begin

section \<open>Python strings\<close>

text \<open>
  A Python \<open>str\<close> is modelled as a \<open>string\<close> whose characters are the code points below
  256 (\<open>of_char\<close> gives the code point); text with code points from 256 on is outside
  the model. The functions below are the string methods and conversions that
  \<open>model.py\<close> calls.
\<close>

text \<open>\<open>str.isspace\<close> on one character, which is what \<open>str.strip()\<close> removes: tab, newline,
  vertical tab, form feed, carriage return (9 to 13), the four separators 0x1c to 0x1f
  and the space (28 to 32), the next-line character U+0085 (133) and the no-break space
  U+00A0 (160).\<close>

definition is_space :: "char \<Rightarrow> bool" where
  "is_space c =
     (let n = (of_char c :: nat)
      in (9 \<le> n \<and> n \<le> 13) \<or> (28 \<le> n \<and> n \<le> 32) \<or> n = 133 \<or> n = 160)"

text \<open>\<open>str.strip()\<close>: drops the leading and the trailing run of whitespace.\<close>

definition strip :: "string \<Rightarrow> string" where
  "strip s = rev (dropWhile is_space (rev (dropWhile is_space s)))"

text \<open>\<open>str.lower()\<close> on one character: the capital letters \<open>A\<close> to \<open>Z\<close> (65 to 90) and the
  accented capitals U+00C0 to U+00DE (192 to 222) except the multiplication sign (215)
  move up by 32; every other character stays.\<close>

definition lower_char :: "char \<Rightarrow> char" where
  "lower_char c =
     (let n = (of_char c :: nat)
      in if (65 \<le> n \<and> n \<le> 90) \<or> (192 \<le> n \<and> n \<le> 222 \<and> n \<noteq> 215) then char_of (n + 32)
         else c)"

text \<open>\<open>str.lower()\<close>.\<close>

definition lower :: "string \<Rightarrow> string" where
  "lower s = map lower_char s"

text \<open>\<open>str.startswith(p)\<close> and \<open>str.endswith(p)\<close>.\<close>

definition startswith :: "string \<Rightarrow> string \<Rightarrow> bool" where
  "startswith s p = (take (length p) s = p)"

definition endswith :: "string \<Rightarrow> string \<Rightarrow> bool" where
  "endswith s p = (length p \<le> length s \<and> drop (length s - length p) s = p)"

definition digit_char :: "nat \<Rightarrow> char" where
  "digit_char d = char_of (48 + d)"

text \<open>The decimal text of a natural number, as \<open>str\<close> and f-strings give it.\<close>

function str_nat :: "nat \<Rightarrow> string" where
  "str_nat n = (if n < 10 then [digit_char n] else str_nat (n div 10) @ [digit_char (n mod 10)])"
  by pat_completeness auto
termination
  by (relation "measure (\<lambda>n. n)") auto

declare str_nat.simps [simp del]

definition str_int :: "int \<Rightarrow> string" where
  "str_int i = (if i < 0 then CHR ''-'' # str_nat (nat (- i)) else str_nat (nat i))"

section \<open>Spreadsheet data\<close>

text \<open>
  A cell of the data frame that \<open>pd.read_excel\<close> returns. The program applies \<open>str\<close> to the
  key cell and passes every other cell on untouched, so a scalar that is neither a string
  nor an integer nor a missing value (NaN) is kept as \<open>COther\<close> with the text \<open>str\<close> gives
  for it. A cell that is left blank in the sheet is read as the missing value \<open>CNaN\<close>,
  whose text is \<open>nan\<close>.
\<close>

datatype cell = CStr string | CInt int | CNaN | COther string

fun py_str :: "cell \<Rightarrow> string" where
  "py_str (CStr s) = s"
| "py_str (CInt i) = str_int i"
| "py_str CNaN = ''nan''"
| "py_str (COther s) = s"

text \<open>
  The frame has its column labels in order and its rows in order; the labels are strings,
  and every row (\<open>pd.Series\<close>) has a cell under each label of \<open>df.columns\<close>, so a row is
  read as a function from labels to cells that is looked at on the frame's labels only.
  \<open>df.iterrows()\<close> numbers the rows from 0 (the default \<open>RangeIndex\<close> of
  \<open>pd.read_excel\<close>).
\<close>

type_synonym row = "string \<Rightarrow> cell"

record dataframe =
  columns :: "string list"
  rows :: "row list"

text \<open>\<open>row.get(label, default)\<close>: the cell under the label when the row has it, else the
  default.\<close>

definition row_get :: "string list \<Rightarrow> row \<Rightarrow> string \<Rightarrow> cell \<Rightarrow> cell" where
  "row_get cols r label dflt = (if label \<in> set cols then r label else dflt)"

section \<open>Paths and the file system\<close>

text \<open>\<open>os.path.join(a, b)\<close> for two arguments, as \<open>posixpath\<close> defines it (the program is
  taken to run on a POSIX system): an absolute \<open>b\<close> replaces \<open>a\<close>, otherwise \<open>b\<close> is
  appended after one slash.\<close>

definition path_join :: "string \<Rightarrow> string \<Rightarrow> string" where
  "path_join a b =
     (if startswith b ''/'' then b
      else if a = [] \<or> endswith a ''/'' then a @ b
      else a @ ''/'' @ b)"

text \<open>
  The file system is a tree from the root directory. A regular file carries what
  \<open>PIL.Image.open\<close> finds in it: the pixel size \<open>(w, h)\<close>, or \<open>None\<close> when the file
  cannot be opened as an image. \<open>zipfile\<close> extracts regular files and directories only, so
  the tree has no symbolic links.
\<close>

datatype node = File "(nat \<times> nat) option" | Dir "(string \<times> node) list"

text \<open>The components of a path, split at every slash.\<close>

fun split_path :: "string \<Rightarrow> string list" where
  "split_path [] = [[]]"
| "split_path (c # cs) =
     (if c = CHR ''/'' then [] # split_path cs
      else (case split_path cs of [] \<Rightarrow> [[c]] | x # xs \<Rightarrow> (c # x) # xs))"

text \<open>
  Path resolution as POSIX has it: an empty component and \<open>.\<close> stay in the directory,
  \<open>..\<close> goes to the parent (the root is its own parent), a name is looked up in the
  directory, and a component after a regular file fails. \<open>anc\<close> holds the ancestors of
  the current node, nearest first.
\<close>

fun walk :: "node list \<Rightarrow> node \<Rightarrow> string list \<Rightarrow> node option" where
  "walk anc cur [] = Some cur"
| "walk anc (File im) (c # cs) = None"
| "walk anc (Dir es) (c # cs) =
     (if c = [] \<or> c = ''.'' then walk anc (Dir es) cs
      else if c = ''..'' then
        (case anc of [] \<Rightarrow> walk [] (Dir es) cs | p # ps \<Rightarrow> walk ps p cs)
      else (case map_of es c of None \<Rightarrow> None | Some n \<Rightarrow> walk (Dir es # anc) n cs))"

text \<open>
  \<open>tempfile.TemporaryDirectory\<close> names an absolute path, so every path the program
  queries is absolute or is an absolute key itself; a relative path is looked up from
  the working directory, which the model does not have, and finds nothing.
\<close>

definition stat :: "node \<Rightarrow> string \<Rightarrow> node option" where
  "stat fs p = (if startswith p ''/'' then walk [] fs (split_path p) else None)"

text \<open>\<open>os.path.isdir\<close> and \<open>os.path.isfile\<close>.\<close>

definition isdir :: "node \<Rightarrow> string \<Rightarrow> bool" where
  "isdir fs p = (case stat fs p of Some (Dir es) \<Rightarrow> True | _ \<Rightarrow> False)"

definition isfile :: "node \<Rightarrow> string \<Rightarrow> bool" where
  "isfile fs p = (case stat fs p of Some (File im) \<Rightarrow> True | _ \<Rightarrow> False)"

text \<open>The exceptions that end a run.\<close>

datatype exn = BadZipFile | FileNotFoundError | ImageOpenError | ZeroDivisionError | RenderError

text \<open>\<open>with PILImage.open(img_path) as im: w, h = im.size\<close>.\<close>

definition image_size :: "node \<Rightarrow> string \<Rightarrow> exn + (nat \<times> nat)" where
  "image_size fs p =
     (case stat fs p of
        Some (File (Some wh)) \<Rightarrow> Inr wh
      | Some (File None) \<Rightarrow> Inl ImageOpenError
      | _ \<Rightarrow> Inl FileNotFoundError)"

text \<open>
  A tree in which every regular file opens as an image of positive width: nothing in it
  makes \<open>PILImage.open\<close> or the division by the width raise. It says nothing about
  which folders and photos are there.
\<close>

fun decodable :: "node \<Rightarrow> bool" where
  "decodable (File im) = (case im of None \<Rightarrow> False | Some (w, h) \<Rightarrow> 0 < w)"
| "decodable (Dir es) = (\<forall>n\<in>set (map snd es). decodable n)"

section \<open>The processing loop\<close>

definition PHOTO_WIDTH_INCHES :: int where
  "PHOTO_WIDTH_INCHES = 2"

text \<open>\<open>docx.shared.Inches\<close>: a length in English Metric Units, 914400 to the inch.\<close>

definition Inches :: "int \<Rightarrow> int" where
  "Inches n = n * 914400"

text \<open>
  A value of the rendering context: a cell passed on as it is (the blank default \<open>""\<close> of
  a photo slot is the empty string), or an \<open>InlineImage\<close> with its path, width and
  height. The height is a Python float; the model computes it in the reals, without
  rounding.
\<close>

datatype pyval = Scalar cell | InlineImage string int real

definition blank :: pyval where
  "blank = Scalar (CStr [])"

text \<open>\<open>not img_obj\<close>, which the program asks of the blank default and of \<open>InlineImage\<close>
  objects: true of the empty string, false of an object.\<close>

fun falsy :: "pyval \<Rightarrow> bool" where
  "falsy (Scalar (CStr s)) = (s = [])"
| "falsy (Scalar (CInt i)) = (i = 0)"
| "falsy (Scalar CNaN) = False"
| "falsy (Scalar (COther s)) = False"
| "falsy (InlineImage p w h) = False"

type_synonym "context" = "string \<rightharpoonup> pyval"

text \<open>The dictionary comprehension over \<open>df.columns\<close> (lines 73 to 77).\<close>

fun context_loop :: "row \<Rightarrow> string list \<Rightarrow> context \<Rightarrow> context" where
  "context_loop r [] ctx = ctx"
| "context_loop r (col # cols) ctx =
     (if \<not> startswith (lower col) ''photo'' then context_loop r cols (ctx(col \<mapsto> Scalar (r col)))
      else context_loop r cols ctx)"

text \<open>Lines 92 to 101: the image object for a file found, sized to the fixed width.\<close>

definition inline_image :: "node \<Rightarrow> string \<Rightarrow> exn + pyval" where
  "inline_image fs img_path =
     (case image_size fs img_path of
        Inl e \<Rightarrow> Inl e
      | Inr (w, h) \<Rightarrow>
          if w = 0 then Inl ZeroDivisionError
          else
            (let ratio = real h / real w;
                 tgt_w = Inches PHOTO_WIDTH_INCHES;
                 tgt_h = real_of_int tgt_w * ratio
             in Inr (InlineImage img_path tgt_w tgt_h)))"

text \<open>The search over the extensions (lines 89 to 102); \<open>break\<close> is the return at the
  first file found.\<close>

fun ext_loop :: "node \<Rightarrow> string \<Rightarrow> string \<Rightarrow> string list \<Rightarrow> exn + pyval" where
  "ext_loop fs app_folder key [] = Inr blank"
| "ext_loop fs app_folder key (ext # exts) =
     (let img_path = path_join app_folder (key @ ''.'' @ ext) in
      if isfile fs img_path then inline_image fs img_path
      else ext_loop fs app_folder key exts)"

definition slot_key :: "nat \<Rightarrow> string" where
  "slot_key i = ''photo'' @ str_nat i"

text \<open>Lines 84 to 102: the image object of slot \<open>i\<close>, blank by default.\<close>

definition resolve_slot :: "node \<Rightarrow> string \<Rightarrow> nat \<Rightarrow> exn + pyval" where
  "resolve_slot fs app_folder i =
     (if isdir fs app_folder then ext_loop fs app_folder (slot_key i) [''jpg'', ''jpeg'', ''png'']
      else Inr blank)"

text \<open>What the user is shown: \<open>st.error\<close> and \<open>st.warning\<close> lines, in order.\<close>

datatype msg = Error string | Warning string

definition missing_warning :: "string \<Rightarrow> string \<Rightarrow> msg" where
  "missing_warning key app_no = Warning (''Missing `'' @ key @ ''.*` in folder `'' @ app_no @ ''/`'')"

text \<open>
  The state of a run: the messages shown so far, the files saved in \<open>outputs_dir\<close> by
  name, and the archive handed to \<open>st.download_button\<close>, if any. The saved files are
  kept apart from the tree that the photos are looked up in: the program saves regular
  files named \<open>filled_form_{n}.docx\<close> only, and asks the file system only whether a path
  is a directory and whether a path ending in \<open>photo{N}.{ext}\<close> is a file, so no answer
  depends on what has been saved.
\<close>

record 'd state =
  messages :: "msg list"
  outputs :: "(string \<times> 'd) list"
  download :: "(string \<times> 'd) list option"

definition init_state :: "'d state" where
  "init_state = \<lparr>messages = [], outputs = [], download = None\<rparr>"

text \<open>The loop over the slots (lines 83 to 106).\<close>

fun photo_loop ::
  "node \<Rightarrow> string \<Rightarrow> string \<Rightarrow> nat list \<Rightarrow> context \<Rightarrow> msg list \<Rightarrow> exn + (context \<times> msg list)" where
  "photo_loop fs app_folder app_no [] ctx ms = Inr (ctx, ms)"
| "photo_loop fs app_folder app_no (i # is) ctx ms =
     (case resolve_slot fs app_folder i of
        Inl e \<Rightarrow> Inl e
      | Inr img_obj \<Rightarrow>
          photo_loop fs app_folder app_no is (ctx(slot_key i \<mapsto> img_obj))
            (if falsy img_obj then ms @ [missing_warning (slot_key i) app_no] else ms))"

definition app_no_of :: "string list \<Rightarrow> row \<Rightarrow> string" where
  "app_no_of cols r = strip (py_str (row_get cols r ''Application_Number'' (CStr [])))"

definition out_name :: "nat \<Rightarrow> string" where
  "out_name idx = ''filled_form_'' @ str_nat (idx + 1) @ ''.docx''"

text \<open>
  Lines 72 to 106 for one row: the context handed to the template and the warnings
  emitted on the way.
\<close>

definition record_context ::
  "node \<Rightarrow> string \<Rightarrow> string list \<Rightarrow> row \<Rightarrow> exn + (context \<times> msg list)" where
  "record_context fs photos_dir cols r =
     (let ctx = context_loop r cols Map.empty;
          app_no = app_no_of cols r;
          app_folder = path_join photos_dir app_no
      in photo_loop fs app_folder app_no [1, 2, 3] ctx [])"

text \<open>
  Lines 70 to 109 for one row. \<open>render\<close> stands for the template library: loading
  \<open>ApplicationForm.docx\<close> and \<open>tpl.render(context)\<close>; it gives the rendered document,
  or \<open>None\<close> when the library raises.
\<close>

definition render_record ::
  "(context \<Rightarrow> 'd option) \<Rightarrow> node \<Rightarrow> string \<Rightarrow> string list \<Rightarrow> row \<Rightarrow> exn + ('d \<times> msg list)" where
  "render_record render fs photos_dir cols r =
     (case record_context fs photos_dir cols r of
        Inl e \<Rightarrow> Inl e
      | Inr (ctx, ws) \<Rightarrow>
          (case render ctx of
             None \<Rightarrow> Inl RenderError
           | Some d \<Rightarrow> Inr (d, ws)))"

text \<open>The body of the loop over the rows (lines 70 to 112): the warnings are shown and
  the document is saved in \<open>outputs_dir\<close> under \<open>out_name\<close>.\<close>

definition process_record ::
  "(context \<Rightarrow> 'd option) \<Rightarrow> node \<Rightarrow> string \<Rightarrow> string list \<Rightarrow> nat \<Rightarrow> row \<Rightarrow> 'd state
     \<Rightarrow> exn + 'd state" where
  "process_record render fs photos_dir cols idx r st =
     (case render_record render fs photos_dir cols r of
        Inl e \<Rightarrow> Inl e
      | Inr (d, ws) \<Rightarrow>
          Inr (st\<lparr>messages := messages st @ ws,
                  outputs := AList.update (out_name idx) d (outputs st)\<rparr>))"

fun rows_loop ::
  "(context \<Rightarrow> 'd option) \<Rightarrow> node \<Rightarrow> string \<Rightarrow> string list \<Rightarrow> nat \<Rightarrow> row list \<Rightarrow> 'd state
     \<Rightarrow> exn + 'd state" where
  "rows_loop render fs photos_dir cols idx [] st = Inr st"
| "rows_loop render fs photos_dir cols idx (r # rs) st =
     (case process_record render fs photos_dir cols idx r st of
        Inl e \<Rightarrow> Inl e
      | Inr st' \<Rightarrow> rows_loop render fs photos_dir cols (Suc idx) rs st')"

text \<open>
  Lines 115 to 119: \<open>os.listdir\<close> gives the saved names in no particular order (here the
  order of saving; \<open>sorted_listing_unique\<close> below shows that the order does not matter),
  \<open>sorted\<close> orders them as Python compares strings, character by character, and every
  file is written to the archive under its own name.
\<close>

definition listdir :: "(string \<times> 'd) list \<Rightarrow> string list" where
  "listdir outs = map fst outs"

fun zip_loop :: "(string \<times> 'd) list \<Rightarrow> string list \<Rightarrow> (string \<times> 'd) list \<Rightarrow> exn + (string \<times> 'd) list" where
  "zip_loop outs [] zipf = Inr zipf"
| "zip_loop outs (fname # fnames) zipf =
     (case map_of outs fname of
        None \<Rightarrow> Inl FileNotFoundError
      | Some d \<Rightarrow> zip_loop outs fnames (zipf @ [(fname, d)]))"

definition zip_outputs :: "(string \<times> 'd) list \<Rightarrow> exn + (string \<times> 'd) list" where
  "zip_outputs outs = zip_loop outs (sort (listdir outs)) []"

section \<open>A run\<close>

text \<open>
  The uploads as the run meets them. A spreadsheet upload is what \<open>pd.read_excel\<close> makes
  of it: a data frame, or an exception with its text. An archive upload is what
  \<open>zipfile\<close> makes of it: not a ZIP file, or the file system as it stands after
  \<open>extractall\<close> into the fresh \<open>photos\<close> directory, next to the empty \<open>outputs\<close>
  directory.
\<close>

datatype excel = Unreadable string | Sheet dataframe

datatype archive = NotAZip | Extracted node

text \<open>How a run ends: \<open>st.stop()\<close> after an error message, an uncaught exception, or the
  download button. An exception leaves nothing behind: the temporary directory is
  removed and no download is offered, so the model keeps the exception alone.\<close>

datatype 'd outcome = Stopped "'d state" | Raised exn | Completed "'d state"

definition run ::
  "(context \<Rightarrow> 'd option) \<Rightarrow> excel option \<Rightarrow> archive option \<Rightarrow> string \<Rightarrow> 'd outcome" where
  "run render excel_file photos_zip tmpdir =
     (case (excel_file, photos_zip) of
        (Some xl, Some z) \<Rightarrow>
          (case xl of
             Unreadable e \<Rightarrow>
               Stopped (init_state\<lparr>messages := [Error (''Failed to read Excel file: '' @ e)]\<rparr>)
           | Sheet df \<Rightarrow>
               (let photos_dir = path_join tmpdir ''photos'' in
                case z of
                  NotAZip \<Rightarrow> Raised BadZipFile
                | Extracted fs \<Rightarrow>
                    (case rows_loop render fs photos_dir (columns df) 0 (rows df) init_state of
                       Inl e \<Rightarrow> Raised e
                     | Inr st \<Rightarrow>
                         (case zip_outputs (outputs st) of
                            Inl e \<Rightarrow> Raised e
                          | Inr zipf \<Rightarrow> Completed (st\<lparr>download := Some zipf\<rparr>)))))
      | _ \<Rightarrow>
          Stopped (init_state\<lparr>messages :=
            [Error ''Please upload both the Excel and the photos ZIP before generating.'']\<rparr>))"

section \<open>What a record yields\<close>

text \<open>
  Three readings of \<open>render_record\<close>, used to state properties of whole runs: whether
  the record goes through without an exception, the warnings it emits, and the document
  it renders.
\<close>

definition renders ::
  "(context \<Rightarrow> 'd option) \<Rightarrow> node \<Rightarrow> string \<Rightarrow> string list \<Rightarrow> row \<Rightarrow> bool" where
  "renders render fs photos_dir cols r =
     (case render_record render fs photos_dir cols r of Inl e \<Rightarrow> False | Inr x \<Rightarrow> True)"

definition record_warnings ::
  "(context \<Rightarrow> 'd option) \<Rightarrow> node \<Rightarrow> string \<Rightarrow> string list \<Rightarrow> row \<Rightarrow> msg list" where
  "record_warnings render fs photos_dir cols r =
     (case render_record render fs photos_dir cols r of Inl e \<Rightarrow> [] | Inr (d, ws) \<Rightarrow> ws)"

definition record_doc ::
  "(context \<Rightarrow> 'd option) \<Rightarrow> node \<Rightarrow> string \<Rightarrow> string list \<Rightarrow> row \<Rightarrow> 'd option" where
  "record_doc render fs photos_dir cols r =
     (case render_record render fs photos_dir cols r of Inl e \<Rightarrow> None | Inr (d, ws) \<Rightarrow> Some d)"

section \<open>Decimal numerals read back\<close>

text \<open>The number that a string of decimal digits stands for; it reads back what
  \<open>str_nat\<close> writes, which makes the file names of distinct rows distinct.\<close>

definition digits_val :: "string \<Rightarrow> nat" where
  "digits_val s = foldl (\<lambda>a c. 10 * a + (of_char c - 48)) 0 s"

section \<open>An example run\<close>

text \<open>
  The scenario of the specification, extended: the temporary directory \<open>/tmp/t\<close> after
  extraction holds folder \<open>A100\<close> with \<open>photo1.jpg\<close> and \<open>photo2.png\<close>, folder \<open>A102\<close> with
  all three candidates of slot 1 (the last one not an image), no folder \<open>A101\<close>, and a
  file \<open>photo3.png\<close> at the top level of the archive.
\<close>

definition demo_fs :: node where
  "demo_fs =
     Dir [(''tmp'', Dir [(''t'', Dir
       [(''photos'', Dir
          [(''A100'', Dir [(''photo1.jpg'', File (Some (4, 3))), (''photo2.png'', File (Some (2, 5)))]),
           (''A102'', Dir [(''photo1.jpg'', File (Some (8, 2))), (''photo1.jpeg'', File (Some (1, 1))),
                          (''photo1.png'', File None)]),
           (''photo3.png'', File (Some (3, 3)))]),
        (''outputs'', Dir [])])])]"

text \<open>The scenario of the specification as it stands: folder \<open>A100\<close> with \<open>photo1.jpg\<close> and
  \<open>photo2.png\<close>, and nothing else.\<close>

definition spec_fs :: node where
  "spec_fs =
     Dir [(''tmp'', Dir [(''t'', Dir
       [(''photos'', Dir
          [(''A100'', Dir [(''photo1.jpg'', File (Some (4, 3))), (''photo2.png'', File (Some (2, 5)))])]),
        (''outputs'', Dir [])])])]"

definition demo_cols :: "string list" where
  "demo_cols = [''Application_Number'', ''Name'', ''Photo1'']"

definition demo_row1 :: row where
  "demo_row1 = (\<lambda>c. CNaN)(''Application_Number'' := CStr '' A100 '', ''Name'' := CStr ''Asha'')"

definition demo_row2 :: row where
  "demo_row2 = (\<lambda>c. CNaN)(''Application_Number'' := CStr ''A101'', ''Name'' := CStr ''Bo'')"

text \<open>Three more rows: one whose key cell is blank in the sheet, one whose key cell is a
  space and a no-break space, and one whose key is padded with a no-break space and a
  tab in front and a next-line character behind.\<close>

definition demo_row3 :: row where
  "demo_row3 = (\<lambda>c. CNaN)(''Name'' := CStr ''Cy'')"

definition demo_row4 :: row where
  "demo_row4 = (\<lambda>c. CNaN)(''Application_Number'' := CStr [CHR '' '', CHR 0xA0], ''Name'' := CStr ''Di'')"

definition demo_row5 :: row where
  "demo_row5 = (\<lambda>c. CNaN)(''Application_Number'' := CStr ([CHR 0xA0, CHR 0x09] @ ''A100'' @ [CHR 0x85]),
      ''Name'' := CStr ''Eve'')"

definition demo_df :: dataframe where
  "demo_df = \<lparr>columns = demo_cols, rows = [demo_row1, demo_row2]\<rparr>"

text \<open>A template that renders every context; the document is the name it shows.\<close>

definition demo_render :: "context \<Rightarrow> pyval option option" where
  "demo_render ctx = Some (ctx ''Name'')"

section \<open>Properties\<close>

subsection \<open>Strings and paths\<close>

lemma slot_key_simps:
  "slot_key 1 = ''photo1''" "slot_key 2 = ''photo2''" "slot_key 3 = ''photo3''"
  "slot_key (Suc 0) = ''photo1''"
  by code_simp+

lemma photo_names_prefix:
  "startswith (lower ''photo1'') ''photo''" "startswith (lower ''photo2'') ''photo''"
  "startswith (lower ''photo3'') ''photo''"
  by (simp_all add: startswith_def lower_def lower_char_def)

lemma dropWhile_all: "\<forall>c\<in>set xs. P c \<Longrightarrow> dropWhile P (xs @ ys) = dropWhile P ys"
  by (induction xs) auto

lemma strip_padded:
  assumes l: "\<forall>c\<in>set l. is_space c" and t: "\<forall>c\<in>set t. is_space c"
    and k: "k = [] \<or> (\<not> is_space (hd k) \<and> \<not> is_space (last k))"
  shows "strip (l @ k @ t) = k"
proof (cases "k = []")
  case True
  have "\<forall>c\<in>set (l @ t). is_space c" using l t by auto
  then have d: "dropWhile is_space (l @ t) = []" by (simp only: dropWhile_eq_Nil_conv)
  show ?thesis unfolding strip_def True append_Nil d by simp
next
  case False
  with k have h: "\<not> is_space (hd k)" and e: "\<not> is_space (last k)" by simp_all
  have 1: "dropWhile is_space (l @ k @ t) = k @ t"
    using False h by (cases k) (simp_all add: dropWhile_all [OF l])
  have t': "\<forall>c\<in>set (rev t). is_space c" using t by simp
  have "\<not> is_space (hd (rev k))" using e False by (simp add: hd_rev)
  then have 2: "dropWhile is_space (rev t @ rev k) = rev k"
    using False by (cases "rev k") (simp_all add: dropWhile_all [OF t'])
  show ?thesis by (simp add: strip_def 1 2)
qed

lemma digits_val_snoc: "digits_val (s @ [c]) = 10 * digits_val s + (of_char c - 48)"
  by (simp add: digits_val_def)

lemma digits_val_digit: "d < 10 \<Longrightarrow> of_char (digit_char d) - 48 = d"
  by (simp add: digit_char_def)

lemma digits_val_str_nat: "digits_val (str_nat n) = n"
proof (induction n rule: str_nat.induct)
  case (1 n)
  show ?case
  proof (cases "n < 10")
    case True
    then show ?thesis
      using digits_val_snoc [of "[]" "digit_char n"]
      by (simp add: str_nat.simps [of n] digits_val_digit digits_val_def)
  next
    case False
    with 1 have "digits_val (str_nat (n div 10)) = n div 10" by simp
    with False show ?thesis
      by (simp add: str_nat.simps [of n] digits_val_snoc digits_val_digit)
  qed
qed

lemma str_nat_inj: "str_nat m = str_nat n \<Longrightarrow> m = n"
  by (metis digits_val_str_nat)

lemma out_name_inj: "out_name i = out_name j \<longleftrightarrow> i = j"
  by (auto simp: out_name_def dest: str_nat_inj)

lemma split_path_nonempty: "split_path p \<noteq> []"
  by (induction p) (auto split: list.splits)

lemma split_path_snoc_slash: "split_path (p @ ''/'') = split_path p @ [[]]"
  by (induction p) (auto simp: split_path_nonempty split: list.splits)

lemma walk_snoc_empty:
  "walk anc cur (cs @ [[]]) =
     (case walk anc cur cs of Some (Dir es) \<Rightarrow> Some (Dir es) | _ \<Rightarrow> None)"
proof (induction anc cur cs rule: walk.induct)
  case (1 anc cur)
  then show ?case by (cases cur) simp_all
next
  case (2 anc im c cs)
  then show ?case by simp
next
  case (3 anc es c cs)
  show ?case
  proof (cases "c = [] \<or> c = ''.''")
    case True
    with 3(1) show ?thesis by auto
  next
    case False
    note stay = this
    show ?thesis
    proof (cases "c = ''..''")
      case True
      show ?thesis
      proof (cases anc)
        case Nil
        with 3(2) [OF stay True] True show ?thesis by simp
      next
        case (Cons q qs)
        with 3(3) [OF stay True] True show ?thesis by simp
      qed
    next
      case False
      show ?thesis
      proof (cases "map_of es c")
        case None
        with stay False show ?thesis by simp
      next
        case (Some n)
        with 3(4) [OF stay False] stay False show ?thesis by simp
      qed
    qed
  qed
qed

lemma startswith_slash_append: "p \<noteq> [] \<Longrightarrow> startswith (p @ s) ''/'' = startswith p ''/''"
  by (cases p) (simp_all add: startswith_def)

lemma isdir_snoc_slash:
  assumes "p \<noteq> []"
  shows "isdir fs (p @ ''/'') = isdir fs p"
  unfolding isdir_def stat_def startswith_slash_append [OF assms] split_path_snoc_slash
    walk_snoc_empty
  by (simp split: option.splits node.splits)

lemma path_join_empty: 
  "path_join a [] = (if a = [] \<or> endswith a ''/'' then a else a @ ''/'')"
  by (simp add: path_join_def startswith_def)

lemma isdir_join_empty: "isdir fs (path_join a []) = isdir fs a"
  by (simp add: path_join_empty isdir_snoc_slash)

lemma endswith_snoc_slash: "endswith (a @ ''/'') ''/''"
  by (simp add: endswith_def)

lemma path_join_join_empty: "path_join (path_join a []) f = path_join a f"
  by (auto simp: path_join_empty) (auto simp: path_join_def endswith_snoc_slash)

subsection \<open>Resolving a photo slot\<close>

lemma inline_image_cases:
  "inline_image fs p = Inr v \<Longrightarrow>
     \<exists>w h. image_size fs p = Inr (w, h) \<and> 0 < w
       \<and> v = InlineImage p (Inches PHOTO_WIDTH_INCHES)
               (real_of_int (Inches PHOTO_WIDTH_INCHES) * (real h / real w))"
  by (auto simp: inline_image_def Let_def split: sum.splits if_splits)

lemma ext_loop_cases:
  "ext_loop fs folder key exts = Inr v \<Longrightarrow>
     v = blank \<or> (\<exists>ext\<in>set exts. inline_image fs (path_join folder (key @ ''.'' @ ext)) = Inr v)"
  by (induction exts) (auto simp: Let_def split: if_splits)

lemma ext_loop_find:
  "ext_loop fs folder key exts =
     (case find (\<lambda>ext. isfile fs (path_join folder (key @ ''.'' @ ext))) exts of
        None \<Rightarrow> Inr blank
      | Some ext \<Rightarrow> inline_image fs (path_join folder (key @ ''.'' @ ext)))"
  by (induction exts) (simp_all add: Let_def)

lemma resolve_slot_cases:
  "resolve_slot fs folder i = Inr v \<Longrightarrow>
     v = blank \<or> (\<exists>ext\<in>set [''jpg'', ''jpeg'', ''png''].
        inline_image fs (path_join folder (slot_key i @ ''.'' @ ext)) = Inr v)"
  using ext_loop_cases [of fs folder "slot_key i" "[''jpg'', ''jpeg'', ''png'']" v]
  by (simp add: resolve_slot_def split: if_splits)

lemma resolve_slot_shape:
  assumes "resolve_slot fs folder i = Inr v"
  shows "v = blank \<or> (\<exists>p h. v = InlineImage p (Inches PHOTO_WIDTH_INCHES) h)"
proof (cases "v = blank")
  case True
  then show ?thesis by simp
next
  case False
  with resolve_slot_cases [OF assms] obtain p where "inline_image fs p = Inr v" by auto
  from inline_image_cases [OF this] show ?thesis by blast
qed

lemma falsy_resolved:
  "resolve_slot fs folder i = Inr v \<Longrightarrow> falsy v = (v = blank)"
proof -
  assume r: "resolve_slot fs folder i = Inr v"
  show ?thesis
  proof (cases "v = blank")
    case True
    then show ?thesis by (simp add: blank_def)
  next
    case False
    with resolve_slot_cases [OF r] obtain p where "inline_image fs p = Inr v" by auto
    from inline_image_cases [OF this] obtain w h where "v = InlineImage p w h" by blast
    with False show ?thesis by simp
  qed
qed

lemma resolve_slot_missing: "\<not> isdir fs folder \<Longrightarrow> resolve_slot fs folder i = Inr blank"
  by (simp add: resolve_slot_def)

lemma ext_loop_join_empty:
  "ext_loop fs (path_join a []) key exts = ext_loop fs a key exts"
  by (induction exts) (simp_all add: path_join_join_empty Let_def)

lemma resolve_slot_join_empty: "resolve_slot fs (path_join a []) i = resolve_slot fs a i"
  by (simp only: resolve_slot_def isdir_join_empty ext_loop_join_empty)

text \<open>
  Claim C2. In a folder that exists, slot \<open>i\<close> resolves to the image object of the first
  candidate among \<open>photo{i}.jpg\<close>, \<open>photo{i}.jpeg\<close>, \<open>photo{i}.png\<close> that is a file, in this
  order; the result is that of the first match alone, whatever the later candidates are,
  and it is blank when there is no candidate.
\<close>

theorem C2_extension_preference:
  assumes "isdir fs app_folder"
  shows "resolve_slot fs app_folder i =
           (case find (\<lambda>ext. isfile fs (path_join app_folder (slot_key i @ ''.'' @ ext)))
                   [''jpg'', ''jpeg'', ''png''] of
              None \<Rightarrow> Inr blank
            | Some ext \<Rightarrow> inline_image fs (path_join app_folder (slot_key i @ ''.'' @ ext)))"
  using assms by (simp only: resolve_slot_def ext_loop_find if_True)

theorem C2_extension_preference_witness:
  "isdir demo_fs ''/tmp/t/photos/A102''
   \<and> isfile demo_fs ''/tmp/t/photos/A102/photo1.jpg''
   \<and> isfile demo_fs ''/tmp/t/photos/A102/photo1.jpeg''
   \<and> isfile demo_fs ''/tmp/t/photos/A102/photo1.png''
   \<and> resolve_slot demo_fs ''/tmp/t/photos/A102'' 1 =
       Inr (InlineImage ''/tmp/t/photos/A102/photo1.jpg'' 1828800 457200)"
proof -
  have d: "isdir demo_fs ''/tmp/t/photos/A102''" by code_simp
  have k: "slot_key 1 = ''photo1''" by code_simp
  have j: "path_join ''/tmp/t/photos/A102'' ''photo1.jpg'' = ''/tmp/t/photos/A102/photo1.jpg''"
    by code_simp
  have f1: "isfile demo_fs ''/tmp/t/photos/A102/photo1.jpg''" by code_simp
  have f2: "isfile demo_fs ''/tmp/t/photos/A102/photo1.jpeg''" by code_simp
  have f3: "isfile demo_fs ''/tmp/t/photos/A102/photo1.png''" by code_simp
  have i: "inline_image demo_fs ''/tmp/t/photos/A102/photo1.jpg'' =
       Inr (InlineImage ''/tmp/t/photos/A102/photo1.jpg'' 1828800 457200)" by code_simp
  from C2_extension_preference [OF d, of 1] have "resolve_slot demo_fs ''/tmp/t/photos/A102'' 1 =
       inline_image demo_fs ''/tmp/t/photos/A102/photo1.jpg''"
    unfolding k using f1 j by simp
  with d f1 f2 f3 i show ?thesis by simp
qed

text \<open>
  Claim C5. A resolved photo is an image object whose file has a native size \<open>(w, h)\<close> with
  \<open>w > 0\<close>; its width is the fixed target width, its height is the target width times
  \<open>h / w\<close>, and so height over width equals \<open>h / w\<close>. The quotient is taken in the reals,
  which is the claim up to the rounding of Python's floats.
\<close>

theorem C5_aspect_ratio:
  assumes "resolve_slot fs app_folder i = Inr (InlineImage p tgt_w tgt_h)"
  shows "\<exists>w h. image_size fs p = Inr (w, h) \<and> 0 < w
           \<and> tgt_w = Inches PHOTO_WIDTH_INCHES
           \<and> tgt_h = real_of_int tgt_w * (real h / real w)
           \<and> tgt_h / real_of_int tgt_w = real h / real w"
proof -
  from resolve_slot_cases [OF assms]
  obtain ext where "inline_image fs (path_join app_folder (slot_key i @ ''.'' @ ext))
      = Inr (InlineImage p tgt_w tgt_h)"
    by (auto simp: blank_def)
  from inline_image_cases [OF this]
  obtain w h where wh: "image_size fs (path_join app_folder (slot_key i @ ''.'' @ ext)) = Inr (w, h)"
    "0 < w"
    and eq: "InlineImage p tgt_w tgt_h = InlineImage (path_join app_folder (slot_key i @ ''.'' @ ext))
       (Inches PHOTO_WIDTH_INCHES) (real_of_int (Inches PHOTO_WIDTH_INCHES) * (real h / real w))"
    by blast
  from eq have p: "p = path_join app_folder (slot_key i @ ''.'' @ ext)"
    and tw: "tgt_w = Inches PHOTO_WIDTH_INCHES"
    and th: "tgt_h = real_of_int tgt_w * (real h / real w)"
    by simp_all
  have "tgt_w \<noteq> 0" by (simp add: tw Inches_def PHOTO_WIDTH_INCHES_def)
  then have "tgt_h / real_of_int tgt_w = real h / real w" by (simp add: th)
  with wh p tw th show ?thesis by blast
qed

theorem C5_aspect_ratio_witness:
  "resolve_slot demo_fs ''/tmp/t/photos/A100'' 1 =
     Inr (InlineImage ''/tmp/t/photos/A100/photo1.jpg'' 1828800 1371600)
   \<and> (\<exists>w h. image_size demo_fs ''/tmp/t/photos/A100/photo1.jpg'' = Inr (w, h) \<and> 0 < w
          \<and> (1371600 :: real) / real_of_int 1828800 = real h / real w)"
proof -
  have r: "resolve_slot demo_fs ''/tmp/t/photos/A100'' 1 =
     Inr (InlineImage ''/tmp/t/photos/A100/photo1.jpg'' 1828800 1371600)"
    by code_simp
  from C5_aspect_ratio [OF r] show ?thesis using r by blast
qed

subsection \<open>The context and the warnings of a record\<close>

lemma photo_loop_step:
  assumes "resolve_slot fs folder i = Inr v"
  shows "photo_loop fs folder app_no (i # is) ctx ms =
           photo_loop fs folder app_no is (ctx(slot_key i \<mapsto> v))
             (if v = blank then ms @ [missing_warning (slot_key i) app_no] else ms)"
  using assms falsy_resolved [OF assms] by simp

lemma photo_loop_123:
  assumes "resolve_slot fs folder 1 = Inr v1"
    and "resolve_slot fs folder 2 = Inr v2"
    and "resolve_slot fs folder 3 = Inr v3"
  shows "photo_loop fs folder app_no [1, 2, 3] ctx ms =
           Inr (ctx(''photo1'' \<mapsto> v1, ''photo2'' \<mapsto> v2, ''photo3'' \<mapsto> v3),
                ms @ (if v1 = blank then [missing_warning ''photo1'' app_no] else [])
                   @ (if v2 = blank then [missing_warning ''photo2'' app_no] else [])
                   @ (if v3 = blank then [missing_warning ''photo3'' app_no] else []))"
  apply (subst photo_loop_step [OF assms(1)])
  apply (subst photo_loop_step [OF assms(2)])
  apply (subst photo_loop_step [OF assms(3)])
  apply (simp add: slot_key_simps)
  done

lemma photo_loop_123_D:
  assumes "photo_loop fs folder app_no [1, 2, 3] ctx ms = Inr x"
  shows "\<exists>v1 v2 v3. resolve_slot fs folder 1 = Inr v1 \<and> resolve_slot fs folder 2 = Inr v2
           \<and> resolve_slot fs folder 3 = Inr v3"
proof -
  obtain v1 where r1: "resolve_slot fs folder 1 = Inr v1"
    using assms by (cases "resolve_slot fs folder 1") simp_all
  have a2: "photo_loop fs folder app_no [2, 3] (ctx(slot_key 1 \<mapsto> v1))
      (if v1 = blank then ms @ [missing_warning (slot_key 1) app_no] else ms) = Inr x"
    using assms unfolding photo_loop_step [OF r1] .
  obtain v2 where r2: "resolve_slot fs folder 2 = Inr v2"
    using a2 by (cases "resolve_slot fs folder 2") simp_all
  have a3: "photo_loop fs folder app_no [3] (ctx(slot_key 1 \<mapsto> v1, slot_key 2 \<mapsto> v2))
      (if v2 = blank then (if v1 = blank then ms @ [missing_warning (slot_key 1) app_no] else ms)
         @ [missing_warning (slot_key 2) app_no]
       else (if v1 = blank then ms @ [missing_warning (slot_key 1) app_no] else ms)) = Inr x"
    using a2 unfolding photo_loop_step [OF r2] .
  obtain v3 where r3: "resolve_slot fs folder 3 = Inr v3"
    using a3 by (cases "resolve_slot fs folder 3") simp_all
  from r1 r2 r3 show ?thesis by blast
qed

lemma photo_loop_join_empty:
  "photo_loop fs (path_join a []) app_no is ctx ms = photo_loop fs a app_no is ctx ms"
  by (induction "is" arbitrary: ctx ms) (simp_all add: resolve_slot_join_empty split: sum.splits)

lemma context_loop_apply:
  "context_loop r cols ctx c =
     (if c \<in> set cols \<and> \<not> startswith (lower c) ''photo'' then Some (Scalar (r c)) else ctx c)"
  by (induction cols arbitrary: ctx) auto

lemma record_context_D:
  assumes "record_context fs photos_dir cols r = Inr (ctx, ws)"
  shows "\<exists>v1 v2 v3.
           resolve_slot fs (path_join photos_dir (app_no_of cols r)) 1 = Inr v1
         \<and> resolve_slot fs (path_join photos_dir (app_no_of cols r)) 2 = Inr v2
         \<and> resolve_slot fs (path_join photos_dir (app_no_of cols r)) 3 = Inr v3
         \<and> ctx = (context_loop r cols Map.empty)
                   (''photo1'' \<mapsto> v1, ''photo2'' \<mapsto> v2, ''photo3'' \<mapsto> v3)
         \<and> ws = (if v1 = blank then [missing_warning ''photo1'' (app_no_of cols r)] else [])
                @ (if v2 = blank then [missing_warning ''photo2'' (app_no_of cols r)] else [])
                @ (if v3 = blank then [missing_warning ''photo3'' (app_no_of cols r)] else [])"
proof -
  let ?folder = "path_join photos_dir (app_no_of cols r)"
  have pl: "photo_loop fs ?folder (app_no_of cols r) [1, 2, 3] (context_loop r cols Map.empty) []
      = Inr (ctx, ws)"
    using assms by (simp only: record_context_def Let_def)
  from photo_loop_123_D [OF pl] obtain v1 v2 v3 where
    r: "resolve_slot fs ?folder 1 = Inr v1" "resolve_slot fs ?folder 2 = Inr v2"
       "resolve_slot fs ?folder 3 = Inr v3"
    by blast
  from pl have "Inr (ctx, ws) = Inr ((context_loop r cols Map.empty)
                   (''photo1'' \<mapsto> v1, ''photo2'' \<mapsto> v2, ''photo3'' \<mapsto> v3),
              [] @ (if v1 = blank then [missing_warning ''photo1'' (app_no_of cols r)] else [])
                @ (if v2 = blank then [missing_warning ''photo2'' (app_no_of cols r)] else [])
                @ (if v3 = blank then [missing_warning ''photo3'' (app_no_of cols r)] else []))"
    unfolding photo_loop_123 [OF r] by simp
  then have "ctx = (context_loop r cols Map.empty)
                   (''photo1'' \<mapsto> v1, ''photo2'' \<mapsto> v2, ''photo3'' \<mapsto> v3)"
    and "ws = (if v1 = blank then [missing_warning ''photo1'' (app_no_of cols r)] else [])
                @ (if v2 = blank then [missing_warning ''photo2'' (app_no_of cols r)] else [])
                @ (if v3 = blank then [missing_warning ''photo3'' (app_no_of cols r)] else [])"
    by simp_all
  with r show ?thesis by blast
qed

text \<open>
  Claim C6. In the context of a record, every column whose lower-cased name does not
  start with \<open>photo\<close> maps to the record's cell, unchanged; every slot key \<open>photo1\<close>,
  \<open>photo2\<close>, \<open>photo3\<close> maps to what the slot resolved to, which is blank or an image
  object of the fixed width; and a name that starts with the prefix and is not a slot
  key is not in the context at all.
\<close>

theorem C6_context_fields:
  assumes "record_context fs photos_dir cols r = Inr (ctx, ws)"
  shows "(\<forall>c\<in>set cols. \<not> startswith (lower c) ''photo'' \<longrightarrow> ctx c = Some (Scalar (r c)))
       \<and> (\<forall>i\<in>{1, 2, 3}. \<exists>v.
             resolve_slot fs (path_join photos_dir (app_no_of cols r)) i = Inr v
             \<and> ctx (slot_key i) = Some v
             \<and> (v = blank \<or> (\<exists>p h. v = InlineImage p (Inches PHOTO_WIDTH_INCHES) h)))
       \<and> (\<forall>c. startswith (lower c) ''photo'' \<longrightarrow> c \<notin> slot_key ` {1, 2, 3} \<longrightarrow> ctx c = None)"
proof -
  from record_context_D [OF assms] obtain v1 v2 v3 where
    r: "resolve_slot fs (path_join photos_dir (app_no_of cols r)) 1 = Inr v1"
       "resolve_slot fs (path_join photos_dir (app_no_of cols r)) 2 = Inr v2"
       "resolve_slot fs (path_join photos_dir (app_no_of cols r)) 3 = Inr v3"
    and ctx: "ctx = (context_loop r cols Map.empty)
                   (''photo1'' \<mapsto> v1, ''photo2'' \<mapsto> v2, ''photo3'' \<mapsto> v3)"
    by blast
  have a: "\<forall>c\<in>set cols. \<not> startswith (lower c) ''photo'' \<longrightarrow> ctx c = Some (Scalar (r c))"
    using photo_names_prefix by (auto simp: ctx context_loop_apply)
  have b: "\<forall>i\<in>{1, 2, 3}. \<exists>v.
             resolve_slot fs (path_join photos_dir (app_no_of cols r)) i = Inr v
             \<and> ctx (slot_key i) = Some v
             \<and> (v = blank \<or> (\<exists>p h. v = InlineImage p (Inches PHOTO_WIDTH_INCHES) h))"
    using r resolve_slot_shape [OF r(1)] resolve_slot_shape [OF r(2)] resolve_slot_shape [OF r(3)]
    by (simp add: ctx slot_key_simps)
  have c: "\<forall>c. startswith (lower c) ''photo'' \<longrightarrow> c \<notin> slot_key ` {1, 2, 3} \<longrightarrow> ctx c = None"
    by (simp add: ctx context_loop_apply slot_key_simps)
  from a b c show ?thesis by blast
qed

theorem C6_context_fields_witness:
  "(case record_context demo_fs ''/tmp/t/photos'' demo_cols demo_row1 of
      Inl e \<Rightarrow> False
    | Inr (ctx, ws) \<Rightarrow>
        ctx ''Name'' = Some (Scalar (CStr ''Asha''))
      \<and> ctx ''photo1'' = Some (InlineImage ''/tmp/t/photos/A100/photo1.jpg'' 1828800 1371600)
      \<and> ctx ''photo3'' = Some blank
      \<and> ctx ''Photo1'' = None)"
proof -
  have "\<not> isl (record_context demo_fs ''/tmp/t/photos'' demo_cols demo_row1)" by code_simp
  then obtain ctx ws where
    rc: "record_context demo_fs ''/tmp/t/photos'' demo_cols demo_row1 = Inr (ctx, ws)"
    by (cases "record_context demo_fs ''/tmp/t/photos'' demo_cols demo_row1") auto
  note c6 = C6_context_fields [OF rc]
  have a: "path_join ''/tmp/t/photos'' (app_no_of demo_cols demo_row1) = ''/tmp/t/photos/A100''"
    by code_simp
  have r1: "resolve_slot demo_fs ''/tmp/t/photos/A100'' 1 =
      Inr (InlineImage ''/tmp/t/photos/A100/photo1.jpg'' 1828800 1371600)"
    by code_simp
  have r3: "resolve_slot demo_fs ''/tmp/t/photos/A100'' 3 = Inr blank" by code_simp
  have 1: "ctx ''Name'' = Some (Scalar (CStr ''Asha''))"
    using c6 by (simp add: demo_cols_def demo_row1_def startswith_def lower_def lower_char_def)
  have 2: "ctx ''photo1'' = Some (InlineImage ''/tmp/t/photos/A100/photo1.jpg'' 1828800 1371600)"
    using c6 r1 unfolding a by (auto simp: slot_key_simps)
  have 3: "ctx ''photo3'' = Some blank"
    using c6 r3 unfolding a by (auto simp: slot_key_simps)
  have p: "startswith (lower ''Photo1'') ''photo''" by code_simp
  have q: "''Photo1'' \<notin> slot_key ` {1, 2, 3}" by (simp add: slot_key_simps)
  from c6 have "\<forall>c. startswith (lower c) ''photo'' \<longrightarrow> c \<notin> slot_key ` {1, 2, 3} \<longrightarrow> ctx c = None"
    by (elim conjE)
  with p q have 4: "ctx ''Photo1'' = None" by blast
  from 1 2 3 4 show ?thesis by (simp add: rc)
qed

text \<open>
  Claim C8, as amended. The warnings of a record are, in slot order, one line
  \<open>Missing `photo{N}.*` in folder `{key}/`\<close> for each slot \<open>N\<close> that is left blank, with
  the slot number and the trimmed key, the two names set in backquotes.
\<close>

theorem C8_warning_format:
  assumes "record_context fs photos_dir cols r = Inr (ctx, ws)"
  shows "ws = map (\<lambda>i. Warning (''Missing `photo'' @ str_nat i @ ''.*` in folder `''
                              @ app_no_of cols r @ ''/`''))
                (filter (\<lambda>i. ctx (slot_key i) = Some blank) [1, 2, 3])"
proof -
  from record_context_D [OF assms] obtain v1 v2 v3 where
    ctx: "ctx = (context_loop r cols Map.empty)
                   (''photo1'' \<mapsto> v1, ''photo2'' \<mapsto> v2, ''photo3'' \<mapsto> v3)"
    and ws: "ws = (if v1 = blank then [missing_warning ''photo1'' (app_no_of cols r)] else [])
                @ (if v2 = blank then [missing_warning ''photo2'' (app_no_of cols r)] else [])
                @ (if v3 = blank then [missing_warning ''photo3'' (app_no_of cols r)] else [])"
    by blast
  have n: "str_nat 1 = ''1''" "str_nat 2 = ''2''" "str_nat 3 = ''3''" "str_nat (Suc 0) = ''1''"
    by code_simp+
  show ?thesis
    by (simp add: ctx ws slot_key_simps n missing_warning_def)
qed

theorem C8_warning_format_witness:
  "map_sum id snd (record_context demo_fs ''/tmp/t/photos'' demo_cols demo_row1) =
     Inr [Warning ''Missing `photo3.*` in folder `A100/`'']"
proof -
  have "\<not> isl (record_context demo_fs ''/tmp/t/photos'' demo_cols demo_row1)" by code_simp
  then obtain ctx ws where
    rc: "record_context demo_fs ''/tmp/t/photos'' demo_cols demo_row1 = Inr (ctx, ws)"
    by (cases "record_context demo_fs ''/tmp/t/photos'' demo_cols demo_row1") auto
  have a: "app_no_of demo_cols demo_row1 = ''A100''" by code_simp
  have j: "path_join ''/tmp/t/photos'' ''A100'' = ''/tmp/t/photos/A100''" by code_simp
  have r: "resolve_slot demo_fs ''/tmp/t/photos/A100'' 1 =
      Inr (InlineImage ''/tmp/t/photos/A100/photo1.jpg'' 1828800 1371600)"
    "resolve_slot demo_fs ''/tmp/t/photos/A100'' 2 =
      Inr (InlineImage ''/tmp/t/photos/A100/photo2.png'' 1828800 4572000)"
    "resolve_slot demo_fs ''/tmp/t/photos/A100'' 3 = Inr blank"
    by code_simp+
  from record_context_D [OF rc] r
  have ctx: "ctx ''photo1'' = Some (InlineImage ''/tmp/t/photos/A100/photo1.jpg'' 1828800 1371600)"
    "ctx ''photo2'' = Some (InlineImage ''/tmp/t/photos/A100/photo2.png'' 1828800 4572000)"
    "ctx ''photo3'' = Some blank"
    unfolding a j by auto
  have n: "str_nat 3 = ''3''" by code_simp
  from C8_warning_format [OF rc] have "ws = [Warning ''Missing `photo3.*` in folder `A100/`'']"
    by (simp add: ctx slot_key_simps a n blank_def)
  then show ?thesis by (simp add: rc)
qed

text \<open>
  Claim C8 as stated has the two names in double quotes; the lines emitted for the record
  with key \<open>A101\<close> and no folder are not those.
\<close>

theorem C8_warning_format_counterexample:
  \<open>map_sum id snd (record_context demo_fs ''/tmp/t/photos'' demo_cols demo_row2) \<noteq>
     Inr [Warning ''Missing "photo1.*" in folder "A101/"'',
          Warning ''Missing "photo2.*" in folder "A101/"'',
          Warning ''Missing "photo3.*" in folder "A101/"'']\<close>
  by code_simp

text \<open>
  Claim C3. When the folder of the record's key is not a directory, the context of the
  record has the three photo slots blank and exactly three warnings are emitted, one per
  slot; given that the template renders this context, the record is processed without
  an exception and its document is saved under the record's file name.
\<close>

theorem C3_missing_folder:
  assumes "\<not> isdir fs (path_join photos_dir (app_no_of cols r))"
    and "render ((context_loop r cols Map.empty)
           (''photo1'' \<mapsto> blank, ''photo2'' \<mapsto> blank, ''photo3'' \<mapsto> blank)) = Some d"
  shows "record_context fs photos_dir cols r =
           Inr ((context_loop r cols Map.empty)
                  (''photo1'' \<mapsto> blank, ''photo2'' \<mapsto> blank, ''photo3'' \<mapsto> blank),
                [Warning (''Missing `photo1.*` in folder `'' @ app_no_of cols r @ ''/`''),
                 Warning (''Missing `photo2.*` in folder `'' @ app_no_of cols r @ ''/`''),
                 Warning (''Missing `photo3.*` in folder `'' @ app_no_of cols r @ ''/`'')])
       \<and> process_record render fs photos_dir cols idx r st =
           Inr (st\<lparr>messages := messages st @
                    [Warning (''Missing `photo1.*` in folder `'' @ app_no_of cols r @ ''/`''),
                     Warning (''Missing `photo2.*` in folder `'' @ app_no_of cols r @ ''/`''),
                     Warning (''Missing `photo3.*` in folder `'' @ app_no_of cols r @ ''/`'')],
                   outputs := AList.update (out_name idx) d (outputs st)\<rparr>)"
proof -
  let ?folder = "path_join photos_dir (app_no_of cols r)"
  have rc: "record_context fs photos_dir cols r =
           Inr ((context_loop r cols Map.empty)
                  (''photo1'' \<mapsto> blank, ''photo2'' \<mapsto> blank, ''photo3'' \<mapsto> blank),
                [Warning (''Missing `photo1.*` in folder `'' @ app_no_of cols r @ ''/`''),
                 Warning (''Missing `photo2.*` in folder `'' @ app_no_of cols r @ ''/`''),
                 Warning (''Missing `photo3.*` in folder `'' @ app_no_of cols r @ ''/`'')])"
    unfolding record_context_def Let_def
    by (simp only: photo_loop_123 [OF resolve_slot_missing [OF assms(1)]
          resolve_slot_missing [OF assms(1)] resolve_slot_missing [OF assms(1)]])
       (simp add: missing_warning_def)
  show ?thesis
    using assms(2) by (simp add: rc process_record_def render_record_def)
qed

theorem C3_missing_folder_witness:
  "\<not> isdir demo_fs (path_join ''/tmp/t/photos'' (app_no_of demo_cols demo_row2))
   \<and> app_no_of demo_cols demo_row2 = ''A101''
   \<and> map_sum id snd (record_context demo_fs ''/tmp/t/photos'' demo_cols demo_row2) =
       Inr [Warning ''Missing `photo1.*` in folder `A101/`'',
            Warning ''Missing `photo2.*` in folder `A101/`'',
            Warning ''Missing `photo3.*` in folder `A101/`'']
   \<and> process_record demo_render demo_fs ''/tmp/t/photos'' demo_cols 1 demo_row2 init_state =
       Inr \<lparr>messages = [Warning ''Missing `photo1.*` in folder `A101/`'',
                        Warning ''Missing `photo2.*` in folder `A101/`'',
                        Warning ''Missing `photo3.*` in folder `A101/`''],
            outputs = [(''filled_form_2.docx'', Some (Scalar (CStr ''Bo'')))],
            download = None\<rparr>"
proof -
  have a: "app_no_of demo_cols demo_row2 = ''A101''" by code_simp
  have d: "\<not> isdir demo_fs (path_join ''/tmp/t/photos'' (app_no_of demo_cols demo_row2))"
    unfolding a by code_simp
  have n: "context_loop demo_row2 demo_cols Map.empty ''Name'' = Some (Scalar (CStr ''Bo''))"
    by code_simp
  have r: "demo_render ((context_loop demo_row2 demo_cols Map.empty)
           (''photo1'' \<mapsto> blank, ''photo2'' \<mapsto> blank, ''photo3'' \<mapsto> blank))
        = Some (Some (Scalar (CStr ''Bo'')))"
    by (simp add: demo_render_def n)
  have o: "out_name (Suc 0) = ''filled_form_2.docx''" by code_simp
  from C3_missing_folder [where render = demo_render and fs = demo_fs and photos_dir = "''/tmp/t/photos''"
      and cols = demo_cols and r = demo_row2 and idx = 1 and st = init_state, OF d r]
  show ?thesis
    using d by (simp add: a o init_state_def)
qed

text \<open>
  Claim C4. The key of a record is the text of its \<open>Application_Number\<close> cell without the
  surrounding whitespace, and the folder searched for the photos is the one of this key:
  a cell \<open>l @ k @ t\<close> whose padding \<open>l\<close> and \<open>t\<close> is whitespace (any character that
  \<open>str.strip()\<close> removes, the no-break space and the next-line character included) and
  whose core \<open>k\<close> neither starts nor ends with whitespace has key \<open>k\<close>.
\<close>

theorem C4_trimmed_key:
  assumes "''Application_Number'' \<in> set cols"
    and "py_str (r ''Application_Number'') = l @ k @ t"
    and "\<forall>c\<in>set l. is_space c" and "\<forall>c\<in>set t. is_space c"
    and "k = [] \<or> (\<not> is_space (hd k) \<and> \<not> is_space (last k))"
  shows "app_no_of cols r = k
       \<and> record_context fs photos_dir cols r =
           photo_loop fs (path_join photos_dir k) k [1, 2, 3] (context_loop r cols Map.empty) []"
proof -
  have key: "app_no_of cols r = k"
    using assms(1,2) strip_padded [OF assms(3,4,5)] by (simp add: app_no_of_def row_get_def)
  show ?thesis
    unfolding record_context_def Let_def key by (rule conjI) (rule refl)+
qed

theorem C4_trimmed_key_witness:
  "''Application_Number'' \<in> set demo_cols
   \<and> py_str (demo_row1 ''Application_Number'') = '' '' @ ''A100'' @ '' ''
   \<and> app_no_of demo_cols demo_row1 = ''A100''
   \<and> path_join ''/tmp/t/photos'' ''A100'' = ''/tmp/t/photos/A100''
   \<and> isdir demo_fs ''/tmp/t/photos/A100''
   \<and> py_str (demo_row5 ''Application_Number'') = [CHR 0xA0, CHR 0x09] @ ''A100'' @ [CHR 0x85]
   \<and> app_no_of demo_cols demo_row5 = ''A100''"
proof -
  have c: "''Application_Number'' \<in> set demo_cols" by (simp add: demo_cols_def)
  have p: "py_str (demo_row1 ''Application_Number'') = '' '' @ ''A100'' @ '' ''"
    by (simp add: demo_row1_def)
  have s: "\<forall>c\<in>set '' ''. is_space c" by code_simp
  have k: "''A100'' = [] \<or> (\<not> is_space (hd ''A100'') \<and> \<not> is_space (last ''A100''))"
    by code_simp
  have j: "path_join ''/tmp/t/photos'' ''A100'' = ''/tmp/t/photos/A100''" by code_simp
  have d: "isdir demo_fs ''/tmp/t/photos/A100''" by code_simp
  have p5: "py_str (demo_row5 ''Application_Number'') = [CHR 0xA0, CHR 0x09] @ ''A100'' @ [CHR 0x85]"
    by (simp add: demo_row5_def)
  have l5: "\<forall>c\<in>set [CHR 0xA0, CHR 0x09]. is_space c" by code_simp
  have t5: "\<forall>c\<in>set [CHR 0x85]. is_space c" by code_simp
  have 1: "app_no_of demo_cols demo_row1 = ''A100''"
    by (rule C4_trimmed_key [where cols = demo_cols and r = demo_row1 and l = "'' ''"
          and k = "''A100''" and t = "'' ''", OF c p s s k, THEN conjunct1])
  have 2: "app_no_of demo_cols demo_row5 = ''A100''"
    by (rule C4_trimmed_key [where cols = demo_cols and r = demo_row5
          and l = "[CHR 0xA0, CHR 0x09]" and k = "''A100''" and t = "[CHR 0x85]",
          OF c p5 l5 t5 k, THEN conjunct1])
  from c p 1 j d p5 2 show ?thesis by blast
qed

text \<open>When the key is empty, and when it is not: a missing key column and a cell of
  whitespace give the empty key; a cell that is read as a missing value gives the key
  \<open>nan\<close>.\<close>

lemma app_no_of_absent: "''Application_Number'' \<notin> set cols \<Longrightarrow> app_no_of cols r = []"
  by (simp add: app_no_of_def row_get_def strip_def)

lemma app_no_of_whitespace:
  assumes "''Application_Number'' \<in> set cols" and "r ''Application_Number'' = CStr s"
    and "\<forall>c\<in>set s. is_space c"
  shows "app_no_of cols r = []"
  using assms(1,2) strip_padded [of s "[]" "[]"] assms(3)
  by (simp add: app_no_of_def row_get_def)

lemma app_no_of_nan:
  assumes "''Application_Number'' \<in> set cols" and "r ''Application_Number'' = CNaN"
  shows "app_no_of cols r = ''nan''"
  using assms by (simp add: app_no_of_def row_get_def strip_def is_space_def)

lemma strip_empty_iff: "strip s = [] \<longleftrightarrow> (\<forall>c\<in>set s. is_space c)"
proof
  assume e: "strip s = []"
  have "dropWhile is_space s = []"
  proof (rule ccontr)
    assume n: "dropWhile is_space s \<noteq> []"
    then have "\<not> is_space (hd (dropWhile is_space s))" by (rule hd_dropWhile)
    moreover from e have "\<forall>c\<in>set (rev (dropWhile is_space s)). is_space c"
      by (simp add: strip_def dropWhile_eq_Nil_conv)
    ultimately show False using n by (simp add: hd_in_set)
  qed
  then show "\<forall>c\<in>set s. is_space c" by (simp add: dropWhile_eq_Nil_conv)
next
  assume "\<forall>c\<in>set s. is_space c"
  then have d: "dropWhile is_space s = []" by (simp only: dropWhile_eq_Nil_conv)
  show "strip s = []" by (simp only: strip_def d rev.simps dropWhile.simps)
qed

lemma app_no_of_empty_iff:
  "app_no_of cols r = [] \<longleftrightarrow>
     ''Application_Number'' \<notin> set cols \<or> (\<forall>c\<in>set (py_str (r ''Application_Number'')). is_space c)"
  by (simp add: app_no_of_def row_get_def strip_empty_iff)

text \<open>
  Claim C10, as amended. A record whose trimmed key is empty is one whose key column is
  absent or whose key cell has only whitespace; it has the extraction directory itself
  as its folder: the folder path is the extraction directory with a slash, which is a
  directory as soon as the extraction directory is one, and each slot resolves to the
  first of \<open>photo{i}.jpg\<close>, \<open>photo{i}.jpeg\<close>, \<open>photo{i}.png\<close> that is a file at the top
  level of the extraction directory.
\<close>

theorem C10_empty_key_root_folder:
  assumes "app_no_of cols r = []" and "isdir fs photos_dir"
  shows "(''Application_Number'' \<notin> set cols
          \<or> (\<forall>c\<in>set (py_str (r ''Application_Number'')). is_space c))
       \<and> isdir fs (path_join photos_dir (app_no_of cols r))
       \<and> resolve_slot fs (path_join photos_dir (app_no_of cols r)) i =
           (case find (\<lambda>ext. isfile fs (path_join photos_dir (slot_key i @ ''.'' @ ext)))
                   [''jpg'', ''jpeg'', ''png''] of
              None \<Rightarrow> Inr blank
            | Some ext \<Rightarrow> inline_image fs (path_join photos_dir (slot_key i @ ''.'' @ ext)))
       \<and> record_context fs photos_dir cols r =
           photo_loop fs photos_dir [] [1, 2, 3] (context_loop r cols Map.empty) []"
proof -
  have 0: "''Application_Number'' \<notin> set cols
          \<or> (\<forall>c\<in>set (py_str (r ''Application_Number'')). is_space c)"
    using assms(1) by (simp only: app_no_of_empty_iff)
  have 1: "isdir fs (path_join photos_dir (app_no_of cols r))"
    using assms by (simp add: isdir_join_empty)
  have 2: "resolve_slot fs (path_join photos_dir (app_no_of cols r)) i =
           (case find (\<lambda>ext. isfile fs (path_join photos_dir (slot_key i @ ''.'' @ ext)))
                   [''jpg'', ''jpeg'', ''png''] of
              None \<Rightarrow> Inr blank
            | Some ext \<Rightarrow> inline_image fs (path_join photos_dir (slot_key i @ ''.'' @ ext)))"
    unfolding assms(1) resolve_slot_join_empty using assms(2)
    by (simp only: resolve_slot_def ext_loop_find if_True)
  have 3: "record_context fs photos_dir cols r =
           photo_loop fs photos_dir [] [1, 2, 3] (context_loop r cols Map.empty) []"
    unfolding record_context_def Let_def assms(1) photo_loop_join_empty ..
  from 0 1 2 3 show ?thesis by blast
qed

theorem C10_empty_key_root_folder_witness:
  "app_no_of [''Name''] demo_row1 = []
   \<and> demo_row4 ''Application_Number'' = CStr [CHR '' '', CHR 0xA0]
   \<and> app_no_of demo_cols demo_row4 = []
   \<and> isdir demo_fs ''/tmp/t/photos''
   \<and> path_join ''/tmp/t/photos'' [] = ''/tmp/t/photos/''
   \<and> resolve_slot demo_fs ''/tmp/t/photos/'' 3 =
       Inr (InlineImage ''/tmp/t/photos/photo3.png'' 1828800 1828800)
   \<and> resolve_slot demo_fs (path_join ''/tmp/t/photos'' (app_no_of demo_cols demo_row4)) 3 =
       Inr (InlineImage ''/tmp/t/photos/photo3.png'' 1828800 1828800)"
proof -
  have a: "app_no_of [''Name''] demo_row1 = []" by code_simp
  have a4: "app_no_of demo_cols demo_row4 = []" by code_simp
  have c4: "demo_row4 ''Application_Number'' = CStr [CHR '' '', CHR 0xA0]"
    by (simp add: demo_row4_def)
  have d: "isdir demo_fs ''/tmp/t/photos''" by code_simp
  have j: "path_join ''/tmp/t/photos'' [] = ''/tmp/t/photos/''" by code_simp
  have f: "find (\<lambda>ext. isfile demo_fs (path_join ''/tmp/t/photos'' (slot_key 3 @ ''.'' @ ext)))
             [''jpg'', ''jpeg'', ''png''] = Some ''png''"
    by code_simp
  have i: "inline_image demo_fs (path_join ''/tmp/t/photos'' (slot_key 3 @ ''.png'')) =
      Inr (InlineImage ''/tmp/t/photos/photo3.png'' 1828800 1828800)"
    by code_simp
  have x: "resolve_slot demo_fs (path_join ''/tmp/t/photos'' (app_no_of [''Name''] demo_row1)) 3 =
      (case find (\<lambda>ext. isfile demo_fs (path_join ''/tmp/t/photos'' (slot_key 3 @ ''.'' @ ext)))
              [''jpg'', ''jpeg'', ''png''] of
         None \<Rightarrow> Inr blank
       | Some ext \<Rightarrow> inline_image demo_fs (path_join ''/tmp/t/photos'' (slot_key 3 @ ''.'' @ ext)))"
    using C10_empty_key_root_folder [where cols = "[''Name'']" and r = demo_row1 and fs = demo_fs
      and photos_dir = "''/tmp/t/photos''" and i = 3, OF a d]
    by (elim conjE)
  have x4: "resolve_slot demo_fs (path_join ''/tmp/t/photos'' (app_no_of demo_cols demo_row4)) 3 =
      (case find (\<lambda>ext. isfile demo_fs (path_join ''/tmp/t/photos'' (slot_key 3 @ ''.'' @ ext)))
              [''jpg'', ''jpeg'', ''png''] of
         None \<Rightarrow> Inr blank
       | Some ext \<Rightarrow> inline_image demo_fs (path_join ''/tmp/t/photos'' (slot_key 3 @ ''.'' @ ext)))"
    using C10_empty_key_root_folder [where cols = demo_cols and r = demo_row4 and fs = demo_fs
      and photos_dir = "''/tmp/t/photos''" and i = 3, OF a4 d]
    by (elim conjE)
  have r: "resolve_slot demo_fs (path_join ''/tmp/t/photos'' (app_no_of [''Name''] demo_row1)) 3 =
      Inr (InlineImage ''/tmp/t/photos/photo3.png'' 1828800 1828800)"
    unfolding x f by (simp add: i)
  have r4: "resolve_slot demo_fs (path_join ''/tmp/t/photos'' (app_no_of demo_cols demo_row4)) 3 =
      Inr (InlineImage ''/tmp/t/photos/photo3.png'' 1828800 1828800)"
    unfolding x4 f by (simp add: i)
  from r have r': "resolve_slot demo_fs ''/tmp/t/photos/'' 3 =
      Inr (InlineImage ''/tmp/t/photos/photo3.png'' 1828800 1828800)"
    unfolding a j .
  from a c4 a4 d j r' r4 show ?thesis by blast
qed

text \<open>
  Claim C10 as stated counts a blank key cell among the records with an empty key. A
  blank cell is the missing value, its key is \<open>nan\<close>, the folder searched is \<open>nan\<close> under
  the extraction directory, and the file \<open>photo3.png\<close> at the top level is not matched.
\<close>

theorem C10_empty_key_root_folder_counterexample:
  "demo_row3 ''Application_Number'' = CNaN
   \<and> app_no_of demo_cols demo_row3 = ''nan''
   \<and> isdir demo_fs ''/tmp/t/photos''
   \<and> isfile demo_fs ''/tmp/t/photos/photo3.png''
   \<and> path_join ''/tmp/t/photos'' (app_no_of demo_cols demo_row3) = ''/tmp/t/photos/nan''
   \<and> resolve_slot demo_fs (path_join ''/tmp/t/photos'' (app_no_of demo_cols demo_row3)) 3 = Inr blank"
  by code_simp

subsection \<open>Whole runs\<close>

lemma update_fresh: "k \<notin> fst ` set al \<Longrightarrow> AList.update k v al = al @ [(k, v)]"
  by (induction al) auto

lemma renders_D:
  "renders render fs pd cols r \<Longrightarrow>
     \<exists>d. render_record render fs pd cols r = Inr (d, record_warnings render fs pd cols r)
        \<and> record_doc render fs pd cols r = Some d"
  by (auto simp: renders_def record_warnings_def record_doc_def split: sum.splits)

lemma record_doc_D:
  "record_doc render fs pd cols r = Some d \<Longrightarrow>
     \<exists>ctx ws. record_context fs pd cols r = Inr (ctx, ws) \<and> render ctx = Some d"
  by (auto simp: record_doc_def render_record_def split: sum.splits option.splits)

lemma rows_loop_renders:
  assumes "list_all (renders render fs pd cols) rs"
    and "\<forall>n\<in>fst ` set (outputs st). \<exists>j<idx. n = out_name j"
  shows "\<exists>st'. rows_loop render fs pd cols idx rs st = Inr st'
           \<and> messages st' = messages st @ concat (map (record_warnings render fs pd cols) rs)
           \<and> map fst (outputs st') = map fst (outputs st) @ map out_name [idx..<idx + length rs]
           \<and> map (Some \<circ> snd) (outputs st') =
               map (Some \<circ> snd) (outputs st) @ map (record_doc render fs pd cols) rs
           \<and> download st' = download st"
  using assms
proof (induction rs arbitrary: idx st)
  case Nil
  then show ?case by simp
next
  case (Cons r rs)
  from Cons.prems(1) have r: "renders render fs pd cols r"
    and rs: "list_all (renders render fs pd cols) rs" by simp_all
  from renders_D [OF r] obtain d where
    rr: "render_record render fs pd cols r = Inr (d, record_warnings render fs pd cols r)"
    and rd: "record_doc render fs pd cols r = Some d" by blast
  have fresh: "out_name idx \<notin> fst ` set (outputs st)"
  proof
    assume "out_name idx \<in> fst ` set (outputs st)"
    with Cons.prems(2) obtain j where "j < idx" "out_name idx = out_name j" by blast
    then show False by (simp add: out_name_inj)
  qed
  define st1 where "st1 = st\<lparr>messages := messages st @ record_warnings render fs pd cols r,
      outputs := outputs st @ [(out_name idx, d)]\<rparr>"
  have pr: "process_record render fs pd cols idx r st = Inr st1"
    by (simp add: process_record_def rr update_fresh [OF fresh] st1_def)
  have inv: "\<forall>n\<in>fst ` set (outputs st1). \<exists>j<Suc idx. n = out_name j"
    using Cons.prems(2) by (auto simp: st1_def intro: less_SucI)
  from Cons.IH [OF rs inv] obtain st' where
    l: "rows_loop render fs pd cols (Suc idx) rs st1 = Inr st'"
    and m: "messages st' = messages st1 @ concat (map (record_warnings render fs pd cols) rs)"
    and n: "map fst (outputs st') = map fst (outputs st1) @ map out_name [Suc idx..<Suc idx + length rs]"
    and d: "map (Some \<circ> snd) (outputs st') =
               map (Some \<circ> snd) (outputs st1) @ map (record_doc render fs pd cols) rs"
    and z: "download st' = download st1"
    by blast
  have u: "[idx..<idx + length (r # rs)] = idx # [Suc idx..<Suc idx + length rs]"
    by (subst upt_rec) simp
  have "rows_loop render fs pd cols idx (r # rs) st = Inr st'" by (simp add: pr l)
  moreover have "messages st' = messages st @ concat (map (record_warnings render fs pd cols) (r # rs))"
    by (simp add: m st1_def)
  moreover have "map fst (outputs st') = map fst (outputs st) @ map out_name [idx..<idx + length (r # rs)]"
    unfolding u by (simp add: n st1_def)
  moreover have "map (Some \<circ> snd) (outputs st') =
               map (Some \<circ> snd) (outputs st) @ map (record_doc render fs pd cols) (r # rs)"
    by (simp add: d st1_def rd)
  moreover have "download st' = download st" by (simp add: z st1_def)
  ultimately show ?case by blast
qed

lemma rows_loop_Inr_renders:
  "rows_loop render fs pd cols idx rs st = Inr st' \<Longrightarrow> list_all (renders render fs pd cols) rs"
proof (induction rs arbitrary: idx st)
  case Nil
  then show ?case by simp
next
  case (Cons r rs)
  from Cons.prems obtain st1 where
    p: "process_record render fs pd cols idx r st = Inr st1"
    and l: "rows_loop render fs pd cols (Suc idx) rs st1 = Inr st'"
    by (cases "process_record render fs pd cols idx r st") simp_all
  from p have "renders render fs pd cols r"
    by (simp add: process_record_def renders_def split: sum.splits)
  with Cons.IH [OF l] show ?case by simp
qed

lemma sorted_listing_unique:
  assumes "distinct names" and "set names = set (listdir outs)" and "distinct (listdir outs)"
  shows "sort names = sort (listdir outs)"
  using assms by (intro sorted_distinct_set_unique) simp_all

lemma zip_loop_ok:
  assumes "set names \<subseteq> fst ` set outs"
  shows "\<exists>zipf. zip_loop outs names acc = Inr zipf
           \<and> map fst zipf = map fst acc @ names
           \<and> set zipf = set acc \<union> {(n, d). n \<in> set names \<and> map_of outs n = Some d}"
  using assms
proof (induction names arbitrary: acc)
  case Nil
  then show ?case by simp
next
  case (Cons n names)
  from Cons.prems have "n \<in> fst ` set outs" by simp
  then obtain d where d: "map_of outs n = Some d"
    by (metis domD dom_map_of_conv_image_fst)
  from Cons.prems have "set names \<subseteq> fst ` set outs" by simp
  from Cons.IH [OF this, of "acc @ [(n, d)]"] obtain zipf where
    "zip_loop outs names (acc @ [(n, d)]) = Inr zipf"
    "map fst zipf = map fst (acc @ [(n, d)]) @ names"
    "set zipf = set (acc @ [(n, d)]) \<union> {(n, d). n \<in> set names \<and> map_of outs n = Some d}"
    by blast
  then show ?case using d by auto
qed

lemma zip_outputs_ok:
  assumes "distinct (map fst outs)"
  shows "\<exists>zipf. zip_outputs outs = Inr zipf \<and> map fst zipf = sort (map fst outs)
           \<and> set zipf = set outs"
proof -
  have "set (sort (listdir outs)) \<subseteq> fst ` set outs" by (simp add: listdir_def)
  from zip_loop_ok [OF this, of "[]"] obtain zipf where
    z: "zip_loop outs (sort (listdir outs)) [] = Inr zipf"
    and n: "map fst zipf = sort (listdir outs)"
    and s: "set zipf = {(n, d). n \<in> set (sort (listdir outs)) \<and> map_of outs n = Some d}"
    by auto
  have "set zipf = set outs"
    using assms by (auto simp: s listdir_def intro: rev_image_eqI)
  with z n show ?thesis by (simp add: zip_outputs_def listdir_def)
qed

lemma distinct_out_names: "distinct (map out_name [m..<n])"
  by (simp add: distinct_map inj_on_def out_name_inj)

lemma run_completes:
  assumes "list_all (renders render fs (path_join tmpdir ''photos'') (columns df)) (rows df)"
  shows "\<exists>st zipf. run render (Some (Sheet df)) (Some (Extracted fs)) tmpdir = Completed st
           \<and> messages st =
               concat (map (record_warnings render fs (path_join tmpdir ''photos'') (columns df))
                         (rows df))
           \<and> map fst (outputs st) = map out_name [0..<length (rows df)]
           \<and> map (Some \<circ> snd) (outputs st) =
               map (record_doc render fs (path_join tmpdir ''photos'') (columns df)) (rows df)
           \<and> download st = Some zipf
           \<and> map fst zipf = sort (map fst (outputs st))
           \<and> set zipf = set (outputs st)"
proof -
  let ?pd = "path_join tmpdir ''photos''"
  have "\<forall>n\<in>fst ` set (outputs (init_state :: 'a state)). \<exists>j<0. n = out_name j"
    by (simp add: init_state_def)
  from rows_loop_renders [OF assms this] obtain st' :: "'a state" where
    l: "rows_loop render fs ?pd (columns df) 0 (rows df) init_state = Inr st'"
    and m: "messages st' = concat (map (record_warnings render fs ?pd (columns df)) (rows df))"
    and n: "map fst (outputs st') = map out_name [0..<length (rows df)]"
    and d: "map (Some \<circ> snd) (outputs st') = map (record_doc render fs ?pd (columns df)) (rows df)"
    by (auto simp: init_state_def)
  have "distinct (map fst (outputs st'))" unfolding n by (rule distinct_out_names)
  from zip_outputs_ok [OF this] obtain zipf where
    z: "zip_outputs (outputs st') = Inr zipf" "map fst zipf = sort (map fst (outputs st'))"
      "set zipf = set (outputs st')"
    by blast
  have "run render (Some (Sheet df)) (Some (Extracted fs)) tmpdir
      = Completed (st'\<lparr>download := Some zipf\<rparr>)"
    by (simp add: run_def l z(1))
  with m n d z show ?thesis by simp
qed

lemma run_Completed_D:
  assumes "run render (Some (Sheet df)) (Some (Extracted fs)) tmpdir = Completed st"
  shows "list_all (renders render fs (path_join tmpdir ''photos'') (columns df)) (rows df)"
proof -
  from assms obtain st' where
    "rows_loop render fs (path_join tmpdir ''photos'') (columns df) 0 (rows df) init_state = Inr st'"
    by (auto simp: run_def Let_def split: sum.splits)
  then show ?thesis by (rule rows_loop_Inr_renders)
qed

text \<open>On a tree whose files all open as images, no record raises before the template
  is rendered, whatever is missing.\<close>

lemma walk_decodable:
  "decodable cur \<Longrightarrow> list_all decodable anc \<Longrightarrow> walk anc cur cs = Some n \<Longrightarrow> decodable n"
proof (induction anc cur cs rule: walk.induct)
  case (1 anc cur)
  then show ?case by simp
next
  case (2 anc im c cs)
  then show ?case by simp
next
  case (3 anc es c cs)
  show ?case
  proof (cases "c = [] \<or> c = ''.''")
    case True
    with 3 show ?thesis by auto
  next
    case False
    note stay = this
    show ?thesis
    proof (cases "c = ''..''")
      case True
      show ?thesis
      proof (cases anc)
        case Nil
        with 3(2) [OF stay True Nil] 3(5,6,7) stay True show ?thesis by simp
      next
        case (Cons q qs)
        with 3(3) [OF stay True Cons] 3(5,6,7) stay True show ?thesis by simp
      qed
    next
      case False
      show ?thesis
      proof (cases "map_of es c")
        case None
        with 3(7) stay False show ?thesis by simp
      next
        case (Some m)
        then have "(c, m) \<in> set es" by (rule map_of_SomeD)
        with 3(5) have dm: "decodable m" by force
        from 3(7) stay False Some have w: "walk (Dir es # anc) m cs = Some n" by simp
        from 3(4) [OF stay False Some dm _ w] 3(5,6) show ?thesis by simp
      qed
    qed
  qed
qed

lemma isfile_decodable:
  assumes "decodable fs" and "isfile fs p"
  shows "\<exists>w h. image_size fs p = Inr (w, h) \<and> 0 < w"
proof -
  from assms(2) obtain im where s: "stat fs p = Some (File im)"
    by (auto simp: isfile_def split: option.splits node.splits)
  then have "walk [] fs (split_path p) = Some (File im)"
    by (simp add: stat_def split: if_splits)
  from walk_decodable [OF assms(1) _ this] have "decodable (File im)" by simp
  then obtain w h where "im = Some (w, h)" "0 < w"
    by (auto split: option.splits)
  with s show ?thesis by (simp add: image_size_def)
qed

lemma inline_image_decodable:
  assumes "decodable fs" and "isfile fs p"
  shows "\<exists>v. inline_image fs p = Inr v"
  using isfile_decodable [OF assms] by (auto simp: inline_image_def Let_def)

lemma ext_loop_decodable:
  assumes "decodable fs"
  shows "\<exists>v. ext_loop fs folder key exts = Inr v"
proof (induction exts)
  case Nil
  show ?case by simp
next
  case (Cons ext exts)
  show ?case
  proof (cases "isfile fs (path_join folder (key @ ''.'' @ ext))")
    case True
    with inline_image_decodable [OF assms True] show ?thesis by (simp add: Let_def)
  next
    case False
    with Cons show ?thesis by (simp add: Let_def)
  qed
qed

lemma resolve_slot_decodable:
  assumes "decodable fs"
  shows "\<exists>v. resolve_slot fs folder i = Inr v"
proof (cases "isdir fs folder")
  case True
  with ext_loop_decodable [OF assms, of folder "slot_key i" "[''jpg'', ''jpeg'', ''png'']"]
  show ?thesis by (simp only: resolve_slot_def if_True)
next
  case False
  then show ?thesis by (simp add: resolve_slot_def)
qed

lemma record_context_decodable:
  assumes "decodable fs"
  shows "\<exists>ctx ws. record_context fs photos_dir cols r = Inr (ctx, ws)"
proof -
  let ?folder = "path_join photos_dir (app_no_of cols r)"
  from resolve_slot_decodable [OF assms] obtain v1 v2 v3 where
    "resolve_slot fs ?folder 1 = Inr v1" "resolve_slot fs ?folder 2 = Inr v2"
    "resolve_slot fs ?folder 3 = Inr v3"
    by metis
  from photo_loop_123 [OF this] show ?thesis
    unfolding record_context_def Let_def by blast
qed

lemma renders_decodable:
  assumes "decodable fs" and "\<forall>ctx. render ctx \<noteq> None"
  shows "renders render fs photos_dir cols r"
proof -
  from record_context_decodable [OF assms(1)] obtain ctx ws where
    rc: "record_context fs photos_dir cols r = Inr (ctx, ws)" by blast
  from assms(2) obtain d where "render ctx = Some d" by auto
  with rc show ?thesis by (simp add: renders_def render_record_def)
qed

lemma demo_renders:
  "list_all (renders demo_render demo_fs (path_join ''/tmp/t'' ''photos'') (columns demo_df))
     (rows demo_df)"
  by code_simp

lemma demo_run_completes:
  "\<exists>st. run demo_render (Some (Sheet demo_df)) (Some (Extracted demo_fs)) ''/tmp/t'' = Completed st"
  using run_completes [OF demo_renders] by blast

text \<open>
  Claim C1. When both uploads are there, the spreadsheet is read, the archive is
  extracted and every record goes through its rendering without an exception, the run
  completes; the output directory then holds as many documents as the data frame has
  rows, under pairwise distinct names, the document at each position being the one
  rendered for the row at that position, and the archive handed to the download has the
  same number of entries, which are the saved documents.
\<close>

theorem C1_one_document_per_record:
  assumes "list_all (renders render fs (path_join tmpdir ''photos'') (columns df)) (rows df)"
  shows "\<exists>st zipf. run render (Some (Sheet df)) (Some (Extracted fs)) tmpdir = Completed st
           \<and> length (outputs st) = length (rows df)
           \<and> distinct (map fst (outputs st))
           \<and> map (Some \<circ> snd) (outputs st) =
               map (record_doc render fs (path_join tmpdir ''photos'') (columns df)) (rows df)
           \<and> download st = Some zipf
           \<and> length zipf = length (rows df)
           \<and> distinct (map fst zipf)
           \<and> set zipf = set (outputs st)"
proof -
  from run_completes [OF assms] obtain st zipf where
    r: "run render (Some (Sheet df)) (Some (Extracted fs)) tmpdir = Completed st"
    and n: "map fst (outputs st) = map out_name [0..<length (rows df)]"
    and d: "map (Some \<circ> snd) (outputs st) =
               map (record_doc render fs (path_join tmpdir ''photos'') (columns df)) (rows df)"
    and z: "download st = Some zipf" "map fst zipf = sort (map fst (outputs st))"
      "set zipf = set (outputs st)"
    by blast
  have "length (map fst (outputs st)) = length (rows df)" unfolding n by simp
  then have lo: "length (outputs st) = length (rows df)" by simp
  have dn: "distinct (map fst (outputs st))" unfolding n by (rule distinct_out_names)
  have "length (map fst zipf) = length (rows df)" unfolding z(2) n by simp
  then have lz: "length zipf = length (rows df)" by simp
  have dz: "distinct (map fst zipf)" unfolding z(2) using dn by simp
  from r lo dn d z(1) lz dz z(3) show ?thesis by blast
qed

theorem C1_one_document_per_record_witness:
  "list_all (renders demo_render demo_fs (path_join ''/tmp/t'' ''photos'') (columns demo_df))
     (rows demo_df)
   \<and> (case run demo_render (Some (Sheet demo_df)) (Some (Extracted demo_fs)) ''/tmp/t'' of
        Completed st \<Rightarrow> length (outputs st) = 2 \<and> map_option length (download st) = Some 2
      | Stopped st \<Rightarrow> False
      | Raised e \<Rightarrow> False)"
proof -
  have l: "length (rows demo_df) = 2" by (simp add: demo_df_def)
  from C1_one_document_per_record [OF demo_renders] obtain st zipf where
    "run demo_render (Some (Sheet demo_df)) (Some (Extracted demo_fs)) ''/tmp/t'' = Completed st"
    "length (outputs st) = length (rows demo_df)" "download st = Some zipf"
    "length zipf = length (rows demo_df)"
    by blast
  with demo_renders show ?thesis by (simp add: l)
qed

text \<open>
  Claim C7. In a completed run the saved files are named \<open>filled_form_{p}.docx\<close> for
  \<open>p\<close> from 1 to the number of rows, in row order; the file of name
  \<open>filled_form_{p}.docx\<close> is the document rendered for the row at position \<open>p\<close>; and the
  names of the archive's entries are the saved names sorted in the order of Python's
  strings.
\<close>

theorem C7_names_and_sorted_bundle:
  assumes "run render (Some (Sheet df)) (Some (Extracted fs)) tmpdir = Completed st"
  shows "map fst (outputs st) =
           map (\<lambda>p. ''filled_form_'' @ str_nat p @ ''.docx'') [1..<Suc (length (rows df))]
       \<and> (\<forall>p\<in>{1..length (rows df)}. \<exists>ctx ws d.
             record_context fs (path_join tmpdir ''photos'') (columns df) (rows df ! (p - 1))
               = Inr (ctx, ws)
             \<and> render ctx = Some d
             \<and> map_of (outputs st) (''filled_form_'' @ str_nat p @ ''.docx'') = Some d)
       \<and> (\<exists>zipf. download st = Some zipf
             \<and> map fst zipf = sort (map fst (outputs st))
             \<and> sorted (map fst zipf)
             \<and> set zipf = set (outputs st))"
proof -
  let ?pd = "path_join tmpdir ''photos''"
  let ?f = "\<lambda>p. ''filled_form_'' @ str_nat p @ ''.docx''"
  from run_completes [OF run_Completed_D [OF assms]] assms obtain zipf where
    n: "map fst (outputs st) = map out_name [0..<length (rows df)]"
    and d: "map (Some \<circ> snd) (outputs st) = map (record_doc render fs ?pd (columns df)) (rows df)"
    and z: "download st = Some zipf" "map fst zipf = sort (map fst (outputs st))"
      "set zipf = set (outputs st)"
    by auto
  have o: "out_name = ?f \<circ> Suc" by (rule ext) (simp add: out_name_def)
  have a: "map fst (outputs st) = map ?f [1..<Suc (length (rows df))]"
    unfolding n o by (simp only: map_map [symmetric] map_Suc_upt One_nat_def)
  have len: "length (outputs st) = length (rows df)"
    using arg_cong [OF n, of length] by simp
  have dn: "distinct (map fst (outputs st))" unfolding n by (rule distinct_out_names)
  have b: "\<forall>p\<in>{1..length (rows df)}. \<exists>ctx ws d.
             record_context fs ?pd (columns df) (rows df ! (p - 1)) = Inr (ctx, ws)
             \<and> render ctx = Some d \<and> map_of (outputs st) (?f p) = Some d"
  proof
    fix p assume "p \<in> {1..length (rows df)}"
    then have k: "p - 1 < length (rows df)" and p: "p = Suc (p - 1)" by auto
    have "fst (outputs st ! (p - 1)) = out_name (p - 1)"
      using arg_cong [OF n, of "\<lambda>xs. xs ! (p - 1)"] k len by simp
    then have f: "fst (outputs st ! (p - 1)) = ?f p" using p by (simp add: out_name_def)
    have rd: "record_doc render fs ?pd (columns df) (rows df ! (p - 1))
        = Some (snd (outputs st ! (p - 1)))"
      using arg_cong [OF d, of "\<lambda>xs. xs ! (p - 1)"] k len by simp
    have "outputs st ! (p - 1) \<in> set (outputs st)" using k len by simp
    then have "(?f p, snd (outputs st ! (p - 1))) \<in> set (outputs st)"
      using f by (metis prod.collapse)
    then have "map_of (outputs st) (?f p) = Some (snd (outputs st ! (p - 1)))"
      using dn by simp
    with record_doc_D [OF rd]
    show "\<exists>ctx ws d. record_context fs ?pd (columns df) (rows df ! (p - 1)) = Inr (ctx, ws)
             \<and> render ctx = Some d \<and> map_of (outputs st) (?f p) = Some d"
      by blast
  qed
  have "sorted (map fst zipf)" unfolding z(2) by simp
  with z have c: "\<exists>zipf. download st = Some zipf \<and> map fst zipf = sort (map fst (outputs st))
             \<and> sorted (map fst zipf) \<and> set zipf = set (outputs st)"
    by blast
  from a b c show ?thesis by blast
qed

theorem C7_names_and_sorted_bundle_witness:
  "(case run demo_render (Some (Sheet demo_df)) (Some (Extracted demo_fs)) ''/tmp/t'' of
      Completed st \<Rightarrow>
        map fst (outputs st) = [''filled_form_1.docx'', ''filled_form_2.docx'']
      \<and> map_option (map fst) (download st) = Some [''filled_form_1.docx'', ''filled_form_2.docx'']
    | Stopped st \<Rightarrow> False
    | Raised e \<Rightarrow> False)"
proof -
  from demo_run_completes obtain st where
    r: "run demo_render (Some (Sheet demo_df)) (Some (Extracted demo_fs)) ''/tmp/t'' = Completed st"
    by blast
  have n: "map (\<lambda>p. ''filled_form_'' @ str_nat p @ ''.docx'') [1..<Suc (length (rows demo_df))]
      = [''filled_form_1.docx'', ''filled_form_2.docx'']"
    by code_simp
  have s: "sort [''filled_form_1.docx'', ''filled_form_2.docx'']
      = [''filled_form_1.docx'', ''filled_form_2.docx'']"
    by code_simp
  from C7_names_and_sorted_bundle [OF r] have a: "map fst (outputs st) = [''filled_form_1.docx'', ''filled_form_2.docx'']"
    unfolding n by (elim conjE)
  from C7_names_and_sorted_bundle [OF r] obtain zipf where "download st = Some zipf"
    "map fst zipf = sort (map fst (outputs st))"
    by blast
  then have "map_option (map fst) (download st) = Some [''filled_form_1.docx'', ''filled_form_2.docx'']"
    unfolding a s by simp
  with a show ?thesis by (simp add: r)
qed

text \<open>
  Claim C9. A run with no spreadsheet upload, with no archive upload, or with a
  spreadsheet that cannot be read stops with the one error message: no warning is
  shown, no document is saved and no download is offered. Warnings never stop a run:
  when every file of the extracted tree opens as an image of positive width and the
  template renders every context, the run completes with the archive of all documents,
  whichever folders and photos are missing, and its messages are the warnings of the
  records, in row order.
\<close>

theorem C9_fatal_errors_and_warnings:
  assumes "decodable fs" and "\<forall>ctx. render ctx \<noteq> None"
  shows "run render None photos_zip tmpdir =
           Stopped \<lparr>messages =
               [Error ''Please upload both the Excel and the photos ZIP before generating.''],
             outputs = [], download = None\<rparr>
       \<and> run render excel_file None tmpdir =
           Stopped \<lparr>messages =
               [Error ''Please upload both the Excel and the photos ZIP before generating.''],
             outputs = [], download = None\<rparr>
       \<and> run render (Some (Unreadable e)) (Some z) tmpdir =
           Stopped \<lparr>messages = [Error (''Failed to read Excel file: '' @ e)],
             outputs = [], download = None\<rparr>
       \<and> (\<exists>st zipf. run render (Some (Sheet df)) (Some (Extracted fs)) tmpdir = Completed st
             \<and> messages st =
                 concat (map (record_warnings render fs (path_join tmpdir ''photos'') (columns df))
                           (rows df))
             \<and> download st = Some zipf
             \<and> length zipf = length (rows df))"
proof -
  have 1: "run render None photos_zip tmpdir =
           Stopped \<lparr>messages =
               [Error ''Please upload both the Excel and the photos ZIP before generating.''],
             outputs = [], download = None\<rparr>"
    by (simp add: run_def init_state_def)
  have 2: "run render excel_file None tmpdir =
           Stopped \<lparr>messages =
               [Error ''Please upload both the Excel and the photos ZIP before generating.''],
             outputs = [], download = None\<rparr>"
    by (simp add: run_def init_state_def split: option.splits)
  have 3: "run render (Some (Unreadable e)) (Some z) tmpdir =
           Stopped \<lparr>messages = [Error (''Failed to read Excel file: '' @ e)],
             outputs = [], download = None\<rparr>"
    by (simp add: run_def init_state_def)
  have all: "list_all (renders render fs (path_join tmpdir ''photos'') (columns df)) (rows df)"
    using renders_decodable [OF assms] by (simp add: list_all_iff)
  from run_completes [OF all] obtain st zipf where
    r: "run render (Some (Sheet df)) (Some (Extracted fs)) tmpdir = Completed st"
    and m: "messages st =
                 concat (map (record_warnings render fs (path_join tmpdir ''photos'') (columns df))
                           (rows df))"
    and n: "map fst (outputs st) = map out_name [0..<length (rows df)]"
    and z: "download st = Some zipf" "map fst zipf = sort (map fst (outputs st))"
    by blast
  have "length (map fst zipf) = length (rows df)" unfolding z(2) n by simp
  then have "length zipf = length (rows df)" by simp
  with r m z(1) have 4: "\<exists>st zipf. run render (Some (Sheet df)) (Some (Extracted fs)) tmpdir = Completed st
             \<and> messages st =
                 concat (map (record_warnings render fs (path_join tmpdir ''photos'') (columns df))
                           (rows df))
             \<and> download st = Some zipf
             \<and> length zipf = length (rows df)"
    by blast
  from 1 2 3 4 show ?thesis by blast
qed

theorem C9_fatal_errors_and_warnings_witness:
  "decodable spec_fs
   \<and> run demo_render None (Some (Extracted spec_fs)) ''/tmp/t'' =
       Stopped \<lparr>messages =
           [Error ''Please upload both the Excel and the photos ZIP before generating.''],
         outputs = [], download = None\<rparr>
   \<and> (case run demo_render (Some (Sheet demo_df)) (Some (Extracted spec_fs)) ''/tmp/t'' of
        Completed st \<Rightarrow>
          messages st = [Warning ''Missing `photo3.*` in folder `A100/`'',
                         Warning ''Missing `photo1.*` in folder `A101/`'',
                         Warning ''Missing `photo2.*` in folder `A101/`'',
                         Warning ''Missing `photo3.*` in folder `A101/`'']
        \<and> map_option length (download st) = Some 2
      | Stopped st \<Rightarrow> False
      | Raised e \<Rightarrow> False)"
proof -
  have d: "decodable spec_fs" by code_simp
  have t: "\<forall>ctx. demo_render ctx \<noteq> None" by (simp add: demo_render_def)
  have l: "length (rows demo_df) = 2" by (simp add: demo_df_def)
  have w: "concat (map (record_warnings demo_render spec_fs (path_join ''/tmp/t'' ''photos'')
                          (columns demo_df)) (rows demo_df))
      = [Warning ''Missing `photo3.*` in folder `A100/`'',
         Warning ''Missing `photo1.*` in folder `A101/`'',
         Warning ''Missing `photo2.*` in folder `A101/`'',
         Warning ''Missing `photo3.*` in folder `A101/`'']"
    by code_simp
  note c9 = C9_fatal_errors_and_warnings [OF d t, where photos_zip = "Some (Extracted spec_fs)" and tmpdir = "''/tmp/t''"
      and df = demo_df]
  have 1: "run demo_render None (Some (Extracted spec_fs)) ''/tmp/t'' =
       Stopped \<lparr>messages =
           [Error ''Please upload both the Excel and the photos ZIP before generating.''],
         outputs = [], download = None\<rparr>"
    by (rule c9 [THEN conjunct1])
  from c9 [THEN conjunct2, THEN conjunct2, THEN conjunct2] obtain st zipf where
    "run demo_render (Some (Sheet demo_df)) (Some (Extracted spec_fs)) ''/tmp/t'' = Completed st"
    "messages st = concat (map (record_warnings demo_render spec_fs (path_join ''/tmp/t'' ''photos'')
                          (columns demo_df)) (rows demo_df))"
    "download st = Some zipf" "length zipf = length (rows demo_df)"
    by blast
  with 1 d show ?thesis unfolding w by (simp add: l)
qed

end
